theory Spec2Isabelle
  imports Complex_Main "HOL-Library.Log_Nat"
begin

section \<open>Data model\<close>

text \<open>
  The browser's \<^verbatim>\<open>File\<close> object, as far as the components read it: display name, size in
  bytes and declared media type.
\<close>

record File =
  file_name :: string
  file_size :: nat
  file_type :: string

text \<open>
  \<^verbatim>\<open>type FileWithProgress = { id: string; file: File; progress: number; uploaded: boolean }\<close>.
  The field \<^verbatim>\<open>id\<close> is called \<open>fid\<close> here. The only numbers ever stored in \<^verbatim>\<open>progress\<close>
  are \<open>0\<close> and results of \<^verbatim>\<open>Math.round\<close>, so the field is an integer.
\<close>

record FileWithProgress =
  fid :: string
  "file" :: File
  progress :: int
  uploaded :: bool

text \<open>The two fields of axios' progress event that the callback reads; \<^verbatim>\<open>total\<close> is optional.\<close>

record ProgressEvent =
  loaded :: nat
  total :: "nat option"

text \<open>A promise is pending until it settles, and then stays fulfilled or rejected.\<close>

datatype promise_state = Pending | Fulfilled | Rejected

datatype outcome = Resolve | Reject

text \<open>
  One request issued by \<^verbatim>\<open>handleUpload\<close>: the entry captured by the closure of the mapped
  async function, the state of the promise returned by \<^verbatim>\<open>axios.post\<close>, and the number of the
  \<^verbatim>\<open>handleUpload\<close> call (the batch) that issued it.
\<close>

record request =
  req_entry :: FileWithProgress
  req_state :: promise_state
  req_batch :: nat

text \<open>
  The state of one mounted \<^verbatim>\<open>MultiFileUpload\<close>: the two \<^verbatim>\<open>useState\<close> cells, the value of the
  input element behind \<^verbatim>\<open>inputRef\<close> (\<open>None\<close> while the ref is null), every request issued so far
  and the number of batches started so far.
\<close>

record MultiFileUpload =
  files :: "FileWithProgress list"
  uploading :: bool
  inputRef :: "string option"
  requests :: "request list"
  batches :: nat

definition init_MultiFileUpload :: MultiFileUpload where
  "init_MultiFileUpload =
     \<lparr>files = [], uploading = False, inputRef = Some [], requests = [], batches = 0\<rparr>"

section \<open>The handlers of MultiFileUpload\<close>

text \<open>The object literal built for each selected file in \<^verbatim>\<open>handleFileSelect\<close>.\<close>

definition newFile :: "File \<Rightarrow> FileWithProgress" where
  "newFile f = \<lparr>fid = file_name f, file = f, progress = 0, uploaded = False\<rparr>"

text \<open>
  \<^verbatim>\<open>handleFileSelect\<close>; the argument is \<^verbatim>\<open>e.target.files\<close>, \<open>None\<close> when it is null.
\<close>

definition handleFileSelect :: "File list option \<Rightarrow> MultiFileUpload \<Rightarrow> MultiFileUpload" where
  "handleFileSelect target_files s =
     (case target_files of
        None \<Rightarrow> s
      | Some fs \<Rightarrow>
          if length fs = 0 then s
          else s\<lparr>files := files s @ map newFile fs,
                 inputRef := (case inputRef s of None \<Rightarrow> None | Some v \<Rightarrow> Some [])\<rparr>)"

text \<open>
  \<^verbatim>\<open>handleUpload\<close> up to its first \<^verbatim>\<open>await\<close>: the guard, \<^verbatim>\<open>setUploading(true)\<close>, and one
  request per entry of the collection, all started before the function suspends.
\<close>

definition handleUpload :: "MultiFileUpload \<Rightarrow> MultiFileUpload" where
  "handleUpload s =
     (if length (files s) = 0 \<or> uploading s then s
      else s\<lparr>uploading := True,
             requests := requests s @
               map (\<lambda>fileWithProgress.
                      \<lparr>req_entry = fileWithProgress, req_state = Pending, req_batch = batches s\<rparr>)
                 (files s),
             batches := Suc (batches s)\<rparr>)"

definition removeFile :: "string \<Rightarrow> MultiFileUpload \<Rightarrow> MultiFileUpload" where
  "removeFile i s = s\<lparr>files := filter (\<lambda>file. fid file \<noteq> i) (files s)\<rparr>"

definition handleClear :: "MultiFileUpload \<Rightarrow> MultiFileUpload" where
  "handleClear s = s\<lparr>files := []\<rparr>"

subsection \<open>Progress and completion callbacks\<close>

text \<open>
  A JavaScript number is a double; its value is a rational. The operations \<^verbatim>\<open>*\<close> and \<^verbatim>\<open>/\<close>
  return the double nearest to the exact result, a tie going to the even significand.
  \<open>fl\<close> is that rounding: for \<open>2^e \<le> \<bar>x\<bar> < 2^(e+1)\<close> the doubles around \<open>x\<close> are the
  multiples of \<open>2^(e-52)\<close>. The exponent range is not limited here: the quotients and
  products below stay far from the overflow and underflow thresholds of a double. Every
  integer below \<open>2^53\<close> is a double.
\<close>

text \<open>The binary exponent of a positive number: the \<open>e\<close> with \<open>2^e \<le> x < 2^(e+1)\<close>.\<close>

definition bexp :: "rat \<Rightarrow> int" where
  "bexp x =
     (if 1 \<le> x then int (floorlog 2 (nat \<lfloor>x\<rfloor>)) - 1
      else - int (floorlog 2 (nat (\<lceil>1 / x\<rceil> - 1))))"

text \<open>The nearest integer, the even one of the two at a tie.\<close>

definition round_even :: "rat \<Rightarrow> int" where
  "round_even n =
     (let f = \<lfloor>n\<rfloor>; d = n - of_int f
      in if d < 1 / 2 then f else if 1 / 2 < d then f + 1
         else if even f then f else f + 1)"

definition fl :: "rat \<Rightarrow> rat" where
  "fl x =
     (if x = 0 then 0
      else let q = 2 powi (bexp \<bar>x\<bar> - 52)
           in sgn x * (of_int (round_even (\<bar>x\<bar> / q)) * q))"

text \<open>
  \<^verbatim>\<open>Math.round\<close> of a double: the nearest integer to its value, a tie going up. The result
  is exact.
\<close>

definition Math_round :: "rat \<Rightarrow> int" where
  "Math_round x = \<lfloor>x + 1 / 2\<rfloor>"

text \<open>\<^verbatim>\<open>progressEvent.total || 1\<close>: an absent total and a total of 0 are both falsy.\<close>

definition total_or_1 :: "ProgressEvent \<Rightarrow> nat" where
  "total_or_1 progressEvent =
     (case total progressEvent of None \<Rightarrow> 1 | Some t \<Rightarrow> if t = 0 then 1 else t)"

text \<open>
  The constant \<^verbatim>\<open>progress\<close> of the callback:
  \<^verbatim>\<open>Math.round((progressEvent.loaded * 100) / (progressEvent.total || 1))\<close>, the product and
  the quotient each rounded to a double. The two fields hold byte counts, which are doubles.
\<close>

definition progress_of :: "ProgressEvent \<Rightarrow> int" where
  "progress_of progressEvent =
     Math_round
       (fl (fl (of_nat (loaded progressEvent) * 100) / of_nat (total_or_1 progressEvent)))"

text \<open>The \<^verbatim>\<open>onUploadProgress\<close> callback of the request made for \<open>fileWithProgress\<close>.\<close>

definition onUploadProgress ::
    "FileWithProgress \<Rightarrow> ProgressEvent \<Rightarrow> MultiFileUpload \<Rightarrow> MultiFileUpload" where
  "onUploadProgress fileWithProgress progressEvent s =
     (let p = progress_of progressEvent
      in s\<lparr>files := map (\<lambda>file. if fid file = fid fileWithProgress
                                  then file\<lparr>progress := p\<rparr> else file) (files s)\<rparr>)"

text \<open>The \<^verbatim>\<open>setFiles\<close> that follows the awaited \<^verbatim>\<open>axios.post\<close> when it resolves.\<close>

definition onUploaded :: "FileWithProgress \<Rightarrow> MultiFileUpload \<Rightarrow> MultiFileUpload" where
  "onUploaded fileWithProgress s =
     s\<lparr>files := map (\<lambda>file. if fid file = fid fileWithProgress
                             then file\<lparr>uploaded := True\<rparr> else file) (files s)\<rparr>"

subsection \<open>Promises\<close>

text \<open>
  The promise of the mapped async function: its body awaits the request inside
  \<^verbatim>\<open>try\<close>/\<^verbatim>\<open>catch\<close>, and the handler only logs, so a rejected request fulfils it too.
\<close>

fun uploadPromise :: "promise_state \<Rightarrow> promise_state" where
  "uploadPromise Pending = Pending"
| "uploadPromise Fulfilled = Fulfilled"
| "uploadPromise Rejected = Fulfilled"

text \<open>
  \<^verbatim>\<open>Promise.all\<close>: rejected as soon as one member is rejected, fulfilled once all members are
  fulfilled, pending otherwise.
\<close>

definition Promise_all :: "promise_state list \<Rightarrow> promise_state" where
  "Promise_all ps =
     (if Rejected \<in> set ps then Rejected
      else if list_all (\<lambda>p. p = Fulfilled) ps then Fulfilled
      else Pending)"

fun settled_state :: "outcome \<Rightarrow> promise_state" where
  "settled_state Resolve = Fulfilled"
| "settled_state Reject = Rejected"

text \<open>
  Request \<open>k\<close> settles. Only a pending request can settle. The body of its async function
  resumes: after a resolution it marks the entry, after a rejection it logs. Then its promise
  is fulfilled, and where that makes \<^verbatim>\<open>Promise.all\<close> of the batch fulfilled, \<^verbatim>\<open>handleUpload\<close>
  resumes after its \<^verbatim>\<open>await\<close> and runs \<^verbatim>\<open>setUploading(false)\<close>; were \<^verbatim>\<open>Promise.all\<close> rejected,
  the \<^verbatim>\<open>await\<close> would throw and the flag would stay. All of this runs in microtasks of the
  settling event, before any other event is handled.
\<close>

definition settle :: "nat \<Rightarrow> outcome \<Rightarrow> MultiFileUpload \<Rightarrow> MultiFileUpload" where
  "settle k out s =
     (if k < length (requests s) \<and> req_state (requests s ! k) = Pending then
        let r = requests s ! k;
            s1 = s\<lparr>requests := (requests s)[k := r\<lparr>req_state := settled_state out\<rparr>]\<rparr>;
            s2 = (case out of Resolve \<Rightarrow> onUploaded (req_entry r) s1 | Reject \<Rightarrow> s1);
            batch = filter (\<lambda>q. req_batch q = req_batch r) (requests s2)
        in if Promise_all (map (\<lambda>q. uploadPromise (req_state q)) batch) = Fulfilled
           then s2\<lparr>uploading := False\<rparr> else s2
      else s)"

text \<open>A progress callback of request \<open>k\<close>; only a pending request reports progress.\<close>

definition report_progress :: "nat \<Rightarrow> ProgressEvent \<Rightarrow> MultiFileUpload \<Rightarrow> MultiFileUpload" where
  "report_progress k progressEvent s =
     (if k < length (requests s) \<and> req_state (requests s ! k) = Pending
      then onUploadProgress (req_entry (requests s ! k)) progressEvent s else s)"

subsection \<open>Events\<close>

text \<open>
  Everything that can happen to a mounted component: the four handlers called with their
  arguments, and the two kinds of network callbacks. The event loop handles one at a time.
\<close>

datatype event =
    FileSelect "File list option"
  | Upload
  | RemoveFile string
  | Clear
  | UploadProgress nat ProgressEvent
  | Settle nat outcome

fun step :: "event \<Rightarrow> MultiFileUpload \<Rightarrow> MultiFileUpload" where
  "step (FileSelect fs) s = handleFileSelect fs s"
| "step Upload s = handleUpload s"
| "step (RemoveFile i) s = removeFile i s"
| "step Clear s = handleClear s"
| "step (UploadProgress k ev) s = report_progress k ev s"
| "step (Settle k out) s = settle k out s"

definition run :: "event list \<Rightarrow> MultiFileUpload \<Rightarrow> MultiFileUpload" where
  "run evs s = fold step evs s"

definition batch_of :: "nat \<Rightarrow> MultiFileUpload \<Rightarrow> request list" where
  "batch_of b s = filter (\<lambda>q. req_batch q = b) (requests s)"

definition all_settled :: "request list \<Rightarrow> bool" where
  "all_settled rs = list_all (\<lambda>q. req_state q \<noteq> Pending) rs"

subsection \<open>What the view offers\<close>

text \<open>
  \<^verbatim>\<open>FileItem\<close> renders the removal button of an entry only under \<^verbatim>\<open>!uploading\<close>; its click
  handler calls \<^verbatim>\<open>onRemove(file.id)\<close>, which is \<^verbatim>\<open>removeFile\<close>. A click on the removal control
  of identifier \<open>i\<close> therefore reaches \<^verbatim>\<open>removeFile\<close> only when the button exists.
\<close>

definition remove_button_rendered :: "string \<Rightarrow> MultiFileUpload \<Rightarrow> bool" where
  "remove_button_rendered i s = (\<not> uploading s \<and> i \<in> set (map fid (files s)))"

definition click_remove :: "string \<Rightarrow> MultiFileUpload \<Rightarrow> MultiFileUpload" where
  "click_remove i s = (if remove_button_rendered i s then removeFile i s else s)"

text \<open>
  The states the event loop can leave behind keep three things together: the flag is set
  exactly while some request is pending, every request carries the number of a batch that
  was started, and a pending request belongs to the latest batch.
\<close>

definition consistent :: "MultiFileUpload \<Rightarrow> bool" where
  "consistent s =
     (uploading s = (\<not> all_settled (requests s))
      \<and> list_all (\<lambda>q. req_batch q < batches s
                       \<and> (req_state q = Pending \<longrightarrow> Suc (req_batch q) = batches s))
           (requests s))"

section \<open>The size formatter\<close>

text \<open>
  \<^verbatim>\<open>formatFileSize\<close> works on doubles. Two models follow. The first computes the index
  with exact real logarithms; it is used for sizes below \<open>1024^4\<close>, where the index of the
  doubles is the same (\<open>unit_index_floor_log\<close> below). The second, \<open>formatFileSize_with\<close>,
  takes the logarithm of the implementation as a parameter and is used for all sizes. In
  both the quotient \<^verbatim>\<open>bytes / Math.pow(k, i)\<close> is exact, being a double divided by a power of
  two, and \<^verbatim>\<open>toFixed(1)\<close> rounds its exact value. The argument is a file size, a
  non-negative integer.
\<close>

text \<open>\<^verbatim>\<open>Math.floor(Math.log(bytes) / Math.log(k))\<close>\<close>

definition floor_log :: "nat \<Rightarrow> nat \<Rightarrow> nat" where
  "floor_log k bytes = nat \<lfloor>ln (real bytes) / ln (real k)\<rfloor>"

text \<open>Decimal digits of a natural number, as JavaScript prints an integer below \<open>10^21\<close>.\<close>

definition digit_char :: "nat \<Rightarrow> char" where
  "digit_char d = ''0123456789'' ! d"

fun show_nat :: "nat \<Rightarrow> string" where
  "show_nat n =
     (if n < 10 then [digit_char n] else show_nat (n div 10) @ [digit_char (n mod 10)])"

declare show_nat.simps [simp del]

text \<open>
  \<^verbatim>\<open>x.toFixed(1)\<close> for \<open>x \<ge> 0\<close>: the integer \<open>n\<close> with \<open>n / 10\<close> nearest to \<open>x\<close>, the larger one
  at a tie, printed with one digit after the point.
\<close>

definition toFixed_1 :: "rat \<Rightarrow> string" where
  "toFixed_1 x =
     (let n = nat \<lfloor>x * 10 + 1 / 2\<rfloor> in show_nat (n div 10) @ ''.'' @ show_nat (n mod 10))"

text \<open>
  \<^verbatim>\<open>parseFloat\<close> on an unsigned decimal literal (digits, then optionally a point and digits),
  the only form \<^verbatim>\<open>toFixed\<close> produces here.
\<close>

definition is_digit :: "char \<Rightarrow> bool" where
  "is_digit c = (c \<in> set ''0123456789'')"

definition digit_val :: "char \<Rightarrow> nat" where
  "digit_val c = length (takeWhile (\<lambda>d. d \<noteq> c) ''0123456789'')"

definition digits_val :: "string \<Rightarrow> nat" where
  "digits_val cs = foldl (\<lambda>a c. 10 * a + digit_val c) 0 cs"

definition parseFloat :: "string \<Rightarrow> rat" where
  "parseFloat str =
     (let ip = takeWhile is_digit str;
          rest = dropWhile is_digit str;
          fp = (case rest of [] \<Rightarrow> []
                | c # cs \<Rightarrow> if c = CHR ''.'' then takeWhile is_digit cs else [])
      in of_nat (digits_val ip) + of_nat (digits_val fp) / 10 ^ length fp)"

text \<open>
  The string a template literal inserts for a number, for the numbers that occur: a
  non-negative multiple of \<open>1/10\<close> prints its integer part, and \<^verbatim>\<open>.d\<close> only when the tenths
  digit \<open>d\<close> is not 0.
\<close>

definition Number_toString :: "rat \<Rightarrow> string" where
  "Number_toString x =
     (let n = nat \<lfloor>x * 10\<rfloor>
      in if n mod 10 = 0 then show_nat (n div 10)
         else show_nat (n div 10) @ ''.'' @ show_nat (n mod 10))"

definition sizes :: "string list" where
  "sizes = [''B'', ''KB'', ''MB'', ''GB'']"

text \<open>Reading a JavaScript array: an index past the end gives \<^verbatim>\<open>undefined\<close>, here \<open>None\<close>.\<close>

definition array_get :: "'a list \<Rightarrow> nat \<Rightarrow> 'a option" where
  "array_get xs i = (if i < length xs then Some (xs ! i) else None)"

text \<open>A template literal prints \<^verbatim>\<open>undefined\<close> as the word.\<close>

definition template_string :: "string option \<Rightarrow> string" where
  "template_string v = (case v of None \<Rightarrow> ''undefined'' | Some str \<Rightarrow> str)"

definition formatFileSize :: "nat \<Rightarrow> string" where
  "formatFileSize bytes =
     (if bytes = 0 then ''0 B''
      else let k = 1024;
               i = floor_log k bytes
           in Number_toString (parseFloat (toFixed_1 (of_nat bytes / of_nat (k ^ i))))
              @ '' '' @ template_string (array_get sizes i))"

text \<open>
  \<^verbatim>\<open>Math.log\<close> is left to the implementation by the language standard, so the double it
  returns for a given size is a parameter here: \<open>Math_log n\<close> is the value of \<^verbatim>\<open>Math.log(n)\<close>.
  The index is \<^verbatim>\<open>Math.floor\<close> of the quotient of two such doubles, rounded to a double. It is
  an integer, and a negative one is no index of the table either.
\<close>

definition unit_index :: "(nat \<Rightarrow> rat) \<Rightarrow> nat \<Rightarrow> nat \<Rightarrow> int" where
  "unit_index Math_log k bytes = \<lfloor>fl (Math_log bytes / Math_log k)\<rfloor>"

definition array_get_int :: "'a list \<Rightarrow> int \<Rightarrow> 'a option" where
  "array_get_int xs i = (if 0 \<le> i \<and> nat i < length xs then Some (xs ! nat i) else None)"

text \<open>
  \<^verbatim>\<open>formatFileSize\<close> with the logarithm of the implementation. \<^verbatim>\<open>Math.pow(k, i)\<close> is a power
  of two and the division by it is exact.
\<close>

definition formatFileSize_with :: "(nat \<Rightarrow> rat) \<Rightarrow> nat \<Rightarrow> string" where
  "formatFileSize_with Math_log bytes =
     (if bytes = 0 then ''0 B''
      else let k = 1024;
               i = unit_index Math_log k bytes
           in Number_toString (parseFloat (toFixed_1 (of_nat bytes / of_nat k powi i)))
              @ '' '' @ template_string (array_get_int sizes i))"

section \<open>The single uploader\<close>

datatype UploadStatus = Idle | Uploading | Success | Error

text \<open>
  The state of one mounted \<^verbatim>\<open>FileUploader\<close>: the \<^verbatim>\<open>file\<close> cell (called \<open>file_sel\<close> here), the
  \<^verbatim>\<open>status\<close> cell and the number of requests that have not settled yet.
\<close>

record FileUploader =
  file_sel :: "File option"
  status :: UploadStatus
  in_flight :: nat

definition init_FileUploader :: FileUploader where
  "init_FileUploader = \<lparr>file_sel = None, status = Idle, in_flight = 0\<rparr>"

text \<open>
  \<^verbatim>\<open>handleFileChange\<close>: element 0 of an empty file list is \<^verbatim>\<open>undefined\<close>, which the component
  treats like \<^verbatim>\<open>null\<close>.
\<close>

definition handleFileChange :: "File list option \<Rightarrow> FileUploader \<Rightarrow> FileUploader" where
  "handleFileChange target_files s =
     (case target_files of
        None \<Rightarrow> s
      | Some fs \<Rightarrow> s\<lparr>file_sel := (case fs of [] \<Rightarrow> None | f # rest \<Rightarrow> Some f)\<rparr>)"

text \<open>\<^verbatim>\<open>handleFileUpload\<close> up to its \<^verbatim>\<open>await\<close>.\<close>

definition handleFileUpload :: "FileUploader \<Rightarrow> FileUploader" where
  "handleFileUpload s =
     (case file_sel s of
        None \<Rightarrow> s
      | Some f \<Rightarrow> s\<lparr>status := Uploading, in_flight := Suc (in_flight s)\<rparr>)"

text \<open>The rest of \<^verbatim>\<open>handleFileUpload\<close>, run when a request in flight settles.\<close>

definition request_settled :: "outcome \<Rightarrow> FileUploader \<Rightarrow> FileUploader" where
  "request_settled out s =
     (if 0 < in_flight s
      then s\<lparr>status := (case out of Resolve \<Rightarrow> Success | Reject \<Rightarrow> Error),
             in_flight := in_flight s - 1\<rparr>
      else s)"

text \<open>
  The upload button exists under \<^verbatim>\<open>file && status !== 'uploading'\<close>; a click calls
  \<^verbatim>\<open>handleFileUpload\<close>.
\<close>

definition upload_button_rendered :: "FileUploader \<Rightarrow> bool" where
  "upload_button_rendered s = (file_sel s \<noteq> None \<and> status s \<noteq> Uploading)"

definition click_upload :: "FileUploader \<Rightarrow> FileUploader" where
  "click_upload s = (if upload_button_rendered s then handleFileUpload s else s)"

datatype fu_event = FileChange "File list option" | ClickUpload | RequestSettled outcome

fun fu_step :: "fu_event \<Rightarrow> FileUploader \<Rightarrow> FileUploader" where
  "fu_step (FileChange fs) s = handleFileChange fs s"
| "fu_step ClickUpload s = click_upload s"
| "fu_step (RequestSettled out) s = request_settled out s"

text \<open>The states a sequence of events passes through, the starting state first.\<close>

fun fu_trace :: "fu_event list \<Rightarrow> FileUploader \<Rightarrow> FileUploader list" where
  "fu_trace [] s = [s]"
| "fu_trace (e # es) s = s # fu_trace es (fu_step e s)"

text \<open>
  The status changes the component makes: into \<open>Uploading\<close> from any other status, and out of
  \<open>Uploading\<close> into \<open>Success\<close> or \<open>Error\<close>. An event may also leave the status as it is.
\<close>

definition status_change :: "UploadStatus \<Rightarrow> UploadStatus \<Rightarrow> bool" where
  "status_change a b =
     (a = b \<or> (a \<noteq> Uploading \<and> b = Uploading)
      \<or> (a = Uploading \<and> (b = Success \<or> b = Error)))"

definition one_request :: "FileUploader \<Rightarrow> bool" where
  "one_request s = (in_flight s = (if status s = Uploading then 1 else 0))"

section \<open>Example data\<close>

definition file_a :: File where
  "file_a = \<lparr>file_name = ''a.txt'', file_size = 1536, file_type = ''text/plain''\<rparr>"

definition file_a2 :: File where
  "file_a2 = \<lparr>file_name = ''a.txt'', file_size = 1048576, file_type = ''text/plain''\<rparr>"

definition file_b :: File where
  "file_b = \<lparr>file_name = ''b.png'', file_size = 204800, file_type = ''image/png''\<rparr>"

definition two_same_name :: MultiFileUpload where
  "two_same_name = handleFileSelect (Some [file_a, file_a2]) init_MultiFileUpload"

definition half_loaded :: ProgressEvent where
  "half_loaded = \<lparr>loaded = 768, total = Some 1536\<rparr>"


definition uploading_a :: MultiFileUpload where
  "uploading_a = handleUpload (handleFileSelect (Some [file_a]) init_MultiFileUpload)"

definition selected_a :: FileUploader where
  "selected_a = handleFileChange (Some [file_a]) init_FileUploader"

definition two_selected :: MultiFileUpload where
  "two_selected = run [FileSelect (Some [file_a, file_b])] init_MultiFileUpload"

text \<open>
  A logarithm to compute with: at 1 and at the sizes next to the first four powers of 1024
  it is the double nearest to the natural logarithm, and it is constant from one of these
  sizes to the next.
\<close>

definition ln_table :: "nat \<Rightarrow> rat" where
  "ln_table n =
     (if n < 1023 then 0
      else if n < 1024 then 7803043411358229 / 2 ^ 50
      else if n < 1048575 then 7804143460206699 / 2 ^ 50
      else if n < 1048576 then 7804142923335531 / 2 ^ 49
      else if n < 1073741823 then 7804143460206699 / 2 ^ 49
      else if n < 1073741824 then 365819224680805 / 2 ^ 44
      else if n < 1099511627775 then 365819224697189 / 2 ^ 44
      else if n < 1099511627776 then 7804143460206443 / 2 ^ 48
      else 7804143460206699 / 2 ^ 48)"

text \<open>Two progress events on which the double quotient and the exact one round apart.\<close>

definition nearly_done :: ProgressEvent where
  "nearly_done = \<lparr>loaded = 70016900456910, total = Some 70368744177799\<rparr>"

definition huge_no_total :: ProgressEvent where
  "huge_no_total = \<lparr>loaded = 9007199254740991, total = None\<rparr>"

section \<open>Selecting, removing and the guard of the bulk upload\<close>

lemma handleFileSelect_files:
  "files (handleFileSelect (Some fs) s) = files s @ map newFile fs"
  by (simp add: handleFileSelect_def)

lemma newFile_fresh:
  "map progress (map newFile hs) = replicate (length hs) 0"
  "map uploaded (map newFile hs) = replicate (length hs) False"
  by (induction hs) (simp_all add: newFile_def)

text \<open>
  C7: \<^verbatim>\<open>handleUpload\<close> does nothing when the collection is empty or an upload is in flight:
  the whole state, and with it the collection, the flag and the list of issued requests, is
  the one before the call.
\<close>

theorem handleUpload_noop:
  assumes "files s = [] \<or> uploading s"
  shows "handleUpload s = s"
  using assms by (auto simp: handleUpload_def)

theorem handleUpload_noop_witness:
  "handleUpload init_MultiFileUpload = init_MultiFileUpload
   \<and> handleUpload (init_MultiFileUpload\<lparr>files := [newFile file_a], uploading := True\<rparr>)
       = init_MultiFileUpload\<lparr>files := [newFile file_a], uploading := True\<rparr>"
  using handleUpload_noop [of init_MultiFileUpload]
    handleUpload_noop [of "init_MultiFileUpload\<lparr>files := [newFile file_a], uploading := True\<rparr>"]
  by (simp add: init_MultiFileUpload_def)

text \<open>
  C8: selecting appends to the existing collection in the order of the handles: after
  selecting \<open>[A]\<close> and then \<open>[B]\<close> the collection is the old one followed by the entry of \<open>A\<close>
  and the entry of \<open>B\<close>; every new entry has progress 0 and is not completed, and a handle
  selected twice is entered twice.
\<close>

theorem handleFileSelect_appends:
  "files (handleFileSelect (Some [B]) (handleFileSelect (Some [A]) s))
     = files s @ [\<lparr>fid = file_name A, file = A, progress = 0, uploaded = False\<rparr>,
                  \<lparr>fid = file_name B, file = B, progress = 0, uploaded = False\<rparr>]
   \<and> files (handleFileSelect (Some hs) s) = files s @ map newFile hs
   \<and> map progress (map newFile hs) = replicate (length hs) 0
   \<and> map uploaded (map newFile hs) = replicate (length hs) False
   \<and> files (handleFileSelect (Some [A]) (handleFileSelect (Some [A]) s))
       = files s @ [newFile A, newFile A]"
proof (intro conjI)
  show "files (handleFileSelect (Some [B]) (handleFileSelect (Some [A]) s))
     = files s @ [\<lparr>fid = file_name A, file = A, progress = 0, uploaded = False\<rparr>,
                  \<lparr>fid = file_name B, file = B, progress = 0, uploaded = False\<rparr>]"
    by (simp add: handleFileSelect_files newFile_def)
  show "files (handleFileSelect (Some hs) s) = files s @ map newFile hs"
    by (rule handleFileSelect_files)
  show "map progress (map newFile hs) = replicate (length hs) 0"
    by (rule newFile_fresh)
  show "map uploaded (map newFile hs) = replicate (length hs) False"
    by (rule newFile_fresh)
  show "files (handleFileSelect (Some [A]) (handleFileSelect (Some [A]) s))
       = files s @ [newFile A, newFile A]"
    by (simp add: handleFileSelect_files)
qed

text \<open>
  C9: \<^verbatim>\<open>removeFile\<close> removes every entry with the given identifier and keeps the others in
  order; two entries made from files of the same name are both removed by one call.
\<close>

theorem removeFile_removes_all:
  assumes "file_name A = file_name B"
  shows "i \<notin> fid ` set (files (removeFile i s))
    \<and> files (removeFile i s) = filter (\<lambda>e. fid e \<noteq> i) (files s)
    \<and> files (removeFile (file_name A)
          (handleFileSelect (Some [B]) (handleFileSelect (Some [A]) s)))
        = files (removeFile (file_name A) s)"
  using assms by (auto simp: removeFile_def handleFileSelect_def newFile_def)

theorem removeFile_removes_all_witness:
  "file_name file_a = file_name file_a2
   \<and> file_a \<noteq> file_a2
   \<and> files (handleFileSelect (Some [file_a2])
        (handleFileSelect (Some [file_a]) init_MultiFileUpload))
       = [newFile file_a, newFile file_a2]
   \<and> files (removeFile ''a.txt''
        (handleFileSelect (Some [file_a2])
          (handleFileSelect (Some [file_a]) init_MultiFileUpload))) = []"
  using removeFile_removes_all [of file_a file_a2 "''a.txt''" init_MultiFileUpload]
  by (simp add: file_a_def file_a2_def removeFile_def handleFileSelect_def
      init_MultiFileUpload_def)

section \<open>Rounding to a double\<close>

lemma two_powi_pos: "(0::rat) < 2 powi e"
  by (rule zero_less_power_int) simp

lemma two_powi_less_D:
  assumes "(2::rat) powi a < 2 powi b"
  shows "a < b"
proof (rule ccontr)
  assume "\<not> a < b"
  then have "b \<le> a" by simp
  then have "(2::rat) powi b \<le> 2 powi a" by (rule power_int_increasing) simp
  with assms show False by simp
qed

lemma bexp_bounds:
  assumes "0 < x"
  shows "2 powi bexp x \<le> x" and "x < 2 powi (bexp x + 1)"
proof -
  have "2 powi bexp x \<le> x \<and> x < 2 powi (bexp x + 1)"
  proof (cases "1 \<le> x")
    case True
    define n where "n = nat \<lfloor>x\<rfloor>"
    define L where "L = floorlog 2 n"
    have n1: "1 \<le> n" using True by (simp add: n_def le_nat_iff)
    then have n0: "0 < n" by simp
    have fb: "2 ^ (L - 1) \<le> n" "n < 2 ^ L"
      using floorlog_bounds [OF n0, of 2] by (simp_all add: L_def)
    have L1: "1 \<le> L" using n0 by (simp add: L_def floorlog_def)
    have be: "bexp x = int (L - 1)" using True L1 by (simp add: bexp_def n_def L_def)
    have nx: "of_nat n \<le> x" using True by (simp add: n_def)
    have xn: "x < of_nat (n + 1)"
    proof -
      have "x < of_int (\<lfloor>x\<rfloor> + 1)" by linarith
      also have "\<lfloor>x\<rfloor> + 1 = int (n + 1)" using True by (simp add: n_def)
      finally show ?thesis by simp
    qed
    have "(2::rat) ^ (L - 1) = of_nat (2 ^ (L - 1))" by simp
    also have "\<dots> \<le> of_nat n" using fb(1) by (simp only: of_nat_le_iff)
    also note nx
    finally have lo: "2 powi bexp x \<le> x" by (simp add: be)
    have "n + 1 \<le> 2 ^ L" using fb(2) by simp
    then have "(of_nat (n + 1) :: rat) \<le> of_nat (2 ^ L)" by (simp only: of_nat_le_iff)
    with xn have "x < 2 ^ L" by simp
    moreover have "bexp x + 1 = int L" using be L1 by simp
    ultimately have hi: "x < 2 powi (bexp x + 1)" by simp
    from lo hi show ?thesis by simp
  next
    case False
    define y where "y = 1 / x"
    define m where "m = nat (\<lceil>y\<rceil> - 1)"
    define K where "K = floorlog 2 m"
    have y1: "1 < y" using False assms by (simp add: y_def)
    then have c2: "2 \<le> \<lceil>y\<rceil>" by linarith
    then have m0: "0 < m" by (simp add: m_def)
    have fb: "2 ^ (K - 1) \<le> m" "m < 2 ^ K"
      using floorlog_bounds [OF m0, of 2] by (simp_all add: K_def)
    have K1: "1 \<le> K" using m0 by (simp add: K_def floorlog_def)
    have be: "bexp x = - int K" using False by (simp add: bexp_def y_def m_def K_def)
    have mc: "int m = \<lceil>y\<rceil> - 1" using c2 by (simp add: m_def)
    have "y \<le> of_int \<lceil>y\<rceil>" by linarith
    also have "\<dots> = of_nat (m + 1)" using mc by simp
    also have "\<dots> \<le> of_nat (2 ^ K)" using fb(2) by (simp only: of_nat_le_iff)
    finally have yK: "y \<le> 2 ^ K" by simp
    have "(2::rat) ^ (K - 1) = of_nat (2 ^ (K - 1))" by simp
    also have "\<dots> \<le> of_nat m" using fb(1) by (simp only: of_nat_le_iff)
    also have "\<dots> = of_int (\<lceil>y\<rceil> - 1)" using mc by (metis of_int_of_nat_eq)
    also have "\<dots> < y" by linarith
    finally have Ky: "2 ^ (K - 1) < y" .
    have lo: "2 powi bexp x \<le> x"
    proof -
      have "1 / 2 ^ K \<le> 1 / y" using yK y1 by (simp add: frac_le)
      then show ?thesis using assms by (simp add: be power_int_minus_divide y_def)
    qed
    have hi: "x < 2 powi (bexp x + 1)"
    proof -
      have "1 / y < 1 / 2 ^ (K - 1)" using Ky by (simp add: frac_less2)
      moreover have "bexp x + 1 = - int (K - 1)" using be K1 by simp
      ultimately show ?thesis using assms by (simp add: power_int_minus_divide y_def)
    qed
    from lo hi show ?thesis by simp
  qed
  then show "2 powi bexp x \<le> x" and "x < 2 powi (bexp x + 1)" by simp_all
qed

lemma bexp_eqI:
  assumes "2 powi e \<le> x" and "x < 2 powi (e + 1)"
  shows "bexp x = e"
proof -
  have pos: "0 < x" using two_powi_pos [of e] assms(1) by linarith
  note b = bexp_bounds [OF pos]
  have "(2::rat) powi e < 2 powi (bexp x + 1)" using assms(1) b(2) by simp
  then have "e < bexp x + 1" by (rule two_powi_less_D)
  moreover have "(2::rat) powi bexp x < 2 powi (e + 1)" using assms(2) b(1) by simp
  then have "bexp x < e + 1" by (rule two_powi_less_D)
  ultimately show ?thesis by simp
qed

lemma bexp_mono:
  assumes "0 < x" and "x \<le> y"
  shows "bexp x \<le> bexp y"
proof -
  have "0 < y" using assms by simp
  have "(2::rat) powi bexp x < 2 powi (bexp y + 1)"
    using bexp_bounds(1) [OF assms(1)] bexp_bounds(2) [OF \<open>0 < y\<close>] assms(2) by simp
  then have "bexp x < bexp y + 1" by (rule two_powi_less_D)
  then show ?thesis by simp
qed

lemma round_even_cases:
  "round_even n = \<lfloor>n\<rfloor> \<and> n - of_int \<lfloor>n\<rfloor> \<le> 1 / 2
   \<or> round_even n = \<lfloor>n\<rfloor> + 1 \<and> 1 / 2 \<le> n - of_int \<lfloor>n\<rfloor>"
  by (auto simp: round_even_def Let_def)

lemma round_even_error: "\<bar>of_int (round_even n) - n\<bar> \<le> 1 / 2"
proof -
  have "of_int \<lfloor>n\<rfloor> \<le> n" "n < of_int \<lfloor>n\<rfloor> + 1" by linarith+
  with round_even_cases [of n] show ?thesis by auto
qed

lemma round_even_of_int: "round_even (of_int k) = k"
  by (simp add: round_even_def)

lemma round_even_lower: "\<lfloor>n\<rfloor> \<le> round_even n"
  using round_even_cases [of n] by auto

lemma round_even_upper: "round_even n \<le> \<lfloor>n\<rfloor> + 1"
  using round_even_cases [of n] by auto

lemma round_even_mono:
  assumes "a \<le> b"
  shows "round_even a \<le> round_even b"
proof (cases "\<lfloor>a\<rfloor> = \<lfloor>b\<rfloor>")
  case True
  then have "a - of_int \<lfloor>a\<rfloor> \<le> b - of_int \<lfloor>b\<rfloor>" using assms by simp
  then show ?thesis using True by (auto simp: round_even_def Let_def)
next
  case False
  have "\<lfloor>a\<rfloor> \<le> \<lfloor>b\<rfloor>" using assms by (rule floor_mono)
  with False have "\<lfloor>a\<rfloor> + 1 \<le> \<lfloor>b\<rfloor>" by simp
  with round_even_upper [of a] round_even_lower [of b] show ?thesis by linarith
qed

lemma round_even_ge: "of_int k \<le> n \<Longrightarrow> k \<le> round_even n"
  using round_even_mono [of "of_int k" n] by (simp add: round_even_of_int)

lemma round_even_le: "n \<le> of_int k \<Longrightarrow> round_even n \<le> k"
  using round_even_mono [of n "of_int k"] by (simp add: round_even_of_int)

lemma fl_pos:
  assumes "0 < x"
  shows "fl x = of_int (round_even (x / 2 powi (bexp x - 52))) * 2 powi (bexp x - 52)"
  using assms by (simp add: fl_def Let_def)

lemma fl_eval:
  assumes "2 powi e \<le> x" and "x < 2 powi (e + 1)"
  shows "fl x = of_int (round_even (x / 2 powi (e - 52))) * 2 powi (e - 52)"
proof -
  have pos: "0 < x" using two_powi_pos [of e] assms(1) by linarith
  show ?thesis by (simp only: fl_pos [OF pos] bexp_eqI [OF assms])
qed

lemma quantum_split: "(2::rat) powi e = 2 ^ 52 * 2 powi (e - 52)"
proof -
  have "(2::rat) powi e = 2 powi (52 + (e - 52))" by simp
  also have "\<dots> = 2 powi 52 * 2 powi (e - 52)" by (rule power_int_add) simp
  finally show ?thesis by simp
qed

lemma significand_bounds:
  assumes "0 < x"
  shows "2 ^ 52 \<le> x / 2 powi (bexp x - 52)" and "x / 2 powi (bexp x - 52) < 2 ^ 53"
proof -
  let ?q = "(2::rat) powi (bexp x - 52)"
  have q: "0 < ?q" by (rule two_powi_pos)
  have "2 ^ 52 * ?q \<le> x"
    using bexp_bounds(1) [OF assms] by (simp only: quantum_split [symmetric])
  then show "2 ^ 52 \<le> x / ?q" using q by (simp add: pos_le_divide_eq)
  have "x < 2 ^ 52 * 2 powi (bexp x + 1 - 52)"
    using bexp_bounds(2) [OF assms] by (simp only: quantum_split [symmetric])
  also have "bexp x + 1 - 52 = 1 + (bexp x - 52)" by simp
  also have "(2::rat) powi (1 + (bexp x - 52)) = 2 powi 1 * ?q" by (rule power_int_add) simp
  finally have "x < 2 ^ 53 * ?q" by simp
  then show "x / ?q < 2 ^ 53" using q by (simp add: pos_divide_less_eq)
qed

lemma fl_range:
  assumes "0 < x"
  shows "2 powi bexp x \<le> fl x" and "fl x \<le> 2 powi (bexp x + 1)"
proof -
  let ?q = "(2::rat) powi (bexp x - 52)"
  let ?m = "round_even (x / ?q)"
  have q: "0 < ?q" by (rule two_powi_pos)
  have "(2::int) ^ 52 \<le> ?m"
    using significand_bounds(1) [OF assms] by (intro round_even_ge) simp
  then have "(of_int (2 ^ 52) :: rat) \<le> of_int ?m" by (simp only: of_int_le_iff)
  then have "2 ^ 52 * ?q \<le> of_int ?m * ?q" using q by simp
  then show "2 powi bexp x \<le> fl x"
    by (simp only: fl_pos [OF assms] quantum_split [symmetric])
  have "?m \<le> (2::int) ^ 53"
    using significand_bounds(2) [OF assms] by (intro round_even_le) simp
  then have "(of_int ?m :: rat) \<le> of_int (2 ^ 53)" by (simp only: of_int_le_iff)
  then have "of_int ?m * ?q \<le> 2 ^ 53 * ?q" using q by simp
  also have "2 ^ 53 * ?q = 2 ^ 52 * (2 powi 1 * ?q)" by simp
  also have "2 powi 1 * ?q = 2 powi (1 + (bexp x - 52))"
    by (rule power_int_add [symmetric]) simp
  also have "1 + (bexp x - 52) = bexp x + 1 - 52" by simp
  finally show "fl x \<le> 2 powi (bexp x + 1)"
    by (simp only: fl_pos [OF assms] quantum_split [symmetric])
qed

lemma fl_pos_pos: "0 < x \<Longrightarrow> 0 < fl x"
  using fl_range(1) [of x] two_powi_pos [of "bexp x"] by linarith

lemma fl_0: "fl 0 = 0"
  by (simp add: fl_def)

lemma fl_mono:
  assumes "0 \<le> x" and "x \<le> y"
  shows "fl x \<le> fl y"
proof (cases "x = 0")
  case True
  show ?thesis
  proof (cases "y = 0")
    case True
    with \<open>x = 0\<close> show ?thesis by simp
  next
    case False
    with assms True have "0 < y" by simp
    from fl_pos_pos [OF this] True show ?thesis by (simp add: fl_0)
  qed
next
  case False
  with assms have x: "0 < x" and y: "0 < y" by simp_all
  have e: "bexp x \<le> bexp y" using x assms(2) by (rule bexp_mono)
  show ?thesis
  proof (cases "bexp x = bexp y")
    case True
    let ?q = "(2::rat) powi (bexp y - 52)"
    have q: "0 < ?q" by (rule two_powi_pos)
    have "x / ?q \<le> y / ?q" using assms(2) q by (simp add: divide_right_mono)
    then have "round_even (x / ?q) \<le> round_even (y / ?q)" by (rule round_even_mono)
    then have "(of_int (round_even (x / ?q)) :: rat) \<le> of_int (round_even (y / ?q))"
      by (simp only: of_int_le_iff)
    then have "of_int (round_even (x / ?q)) * ?q \<le> of_int (round_even (y / ?q)) * ?q"
      using q by simp
    then show ?thesis by (simp only: fl_pos [OF x] fl_pos [OF y] True)
  next
    case False
    with e have "bexp x + 1 \<le> bexp y" by simp
    then have "(2::rat) powi (bexp x + 1) \<le> 2 powi bexp y"
      by (rule power_int_increasing) simp
    with fl_range(2) [OF x] fl_range(1) [OF y] show ?thesis by linarith
  qed
qed

lemma fl_error:
  assumes "0 < x"
  shows "\<bar>fl x - x\<bar> \<le> x / 2 ^ 53"
proof -
  let ?q = "(2::rat) powi (bexp x - 52)"
  let ?n = "x / ?q"
  have q: "0 < ?q" by (rule two_powi_pos)
  have xq: "x = ?n * ?q" using q by simp
  have "fl x - x = (of_int (round_even ?n) - ?n) * ?q"
    using q by (simp add: fl_pos [OF assms] algebra_simps)
  then have "\<bar>fl x - x\<bar> = \<bar>of_int (round_even ?n) - ?n\<bar> * ?q"
    using q by (simp add: abs_mult)
  also have "\<dots> \<le> 1 / 2 * ?q"
    using round_even_error [of ?n] q by (intro mult_right_mono) simp_all
  also have "\<dots> = 2 ^ 52 * ?q / 2 ^ 53" by simp
  also have "\<dots> \<le> x / 2 ^ 53"
    using bexp_bounds(1) [OF assms]
    by (simp only: quantum_split [symmetric]) (simp add: divide_right_mono)
  finally show ?thesis .
qed

lemma fl_of_small_nat:
  assumes "n < 2 ^ 53"
  shows "fl (of_nat n) = of_nat n"
proof (cases "n = 0")
  case True
  then show ?thesis by (simp add: fl_0)
next
  case False
  let ?x = "of_nat n :: rat"
  have x: "0 < ?x" using False by simp
  have "(2::rat) powi bexp ?x \<le> ?x" by (rule bexp_bounds(1) [OF x])
  also have "?x < of_nat (2 ^ 53)" using assms by (simp only: of_nat_less_iff)
  finally have "(2::rat) powi bexp ?x < 2 powi 53" by simp
  then have e: "bexp ?x < 53" by (rule two_powi_less_D)
  define k where "k = nat (52 - bexp ?x)"
  have "bexp ?x - 52 = - int k" using e by (simp add: k_def)
  then have q: "(2::rat) powi (bexp ?x - 52) = 1 / 2 ^ k"
    by (simp add: power_int_minus_divide)
  have "?x / (1 / 2 ^ k) = of_int (int n * 2 ^ k)" by simp
  then have "round_even (?x / (1 / 2 ^ k)) = int n * 2 ^ k"
    by (simp only: round_even_of_int)
  then show ?thesis by (simp add: fl_pos [OF x] q)
qed

lemma fl_upper: "0 < x \<Longrightarrow> fl x \<le> x + x / 2 ^ 53"
  using fl_error [of x] by linarith

lemma fl_lower: "0 < x \<Longrightarrow> x - x / 2 ^ 53 \<le> fl x"
  using fl_error [of x] by linarith

lemma round_even_div:
  assumes "0 < b"
  shows "round_even (of_nat a / of_nat b) =
     (if 2 * (a mod b) < b then int (a div b)
      else if b < 2 * (a mod b) then int (a div b) + 1
      else if even (a div b) then int (a div b) else int (a div b) + 1)"
proof -
  let ?n = "of_nat a / of_nat b :: rat"
  have f: "\<lfloor>?n\<rfloor> = int (a div b)" by (simp add: floor_divide_of_nat_eq)
  have "of_nat a = (of_nat (a div b * b + a mod b) :: rat)" by simp
  also have "\<dots> = of_nat (a div b) * of_nat b + of_nat (a mod b)"
    by (simp only: of_nat_add of_nat_mult)
  finally have "?n = of_nat (a div b) + of_nat (a mod b) / of_nat b"
    using assms by (simp add: field_simps)
  moreover have "of_int \<lfloor>?n\<rfloor> = (of_nat (a div b) :: rat)"
    by (simp only: f of_int_of_nat_eq)
  ultimately have d: "?n - of_int \<lfloor>?n\<rfloor> = of_nat (a mod b) / of_nat b"
    by linarith
  have lt: "(of_nat (a mod b) / of_nat b < (1 / 2 :: rat)) = (2 * (a mod b) < b)"
  proof -
    have "(of_nat (a mod b) / of_nat b < (1 / 2 :: rat))
        = ((of_nat (2 * (a mod b)) :: rat) < of_nat b)"
      using assms by (simp add: field_simps)
    then show ?thesis by (simp only: of_nat_less_iff)
  qed
  have gt: "((1 / 2 :: rat) < of_nat (a mod b) / of_nat b) = (b < 2 * (a mod b))"
  proof -
    have "((1 / 2 :: rat) < of_nat (a mod b) / of_nat b)
        = ((of_nat b :: rat) < of_nat (2 * (a mod b)))"
      using assms by (simp add: field_simps)
    then show ?thesis by (simp only: of_nat_less_iff)
  qed
  show ?thesis
    unfolding round_even_def Let_def by (simp only: d lt gt) (simp add: f)
qed

section \<open>The size formatter: results\<close>

lemma floor_log_floorlog: "floor_log k bytes = floorlog k bytes - 1"
proof (cases "0 < bytes \<and> 1 < k")
  case True
  then show ?thesis by (simp add: floor_log_def floorlog_def log_def)
next
  case False
  then have "bytes = 0 \<or> k = 0 \<or> k = 1" by auto
  then show ?thesis by (auto simp: floor_log_def floorlog_def)
qed

lemma floor_log_rec:
  "floor_log k bytes =
     (if 0 < bytes \<and> 1 < k \<and> k \<le> bytes then Suc (floor_log k (bytes div k)) else 0)"
proof (cases "0 < bytes \<and> 1 < k")
  case True
  show ?thesis
  proof (cases "k \<le> bytes")
    case True
    with \<open>0 < bytes \<and> 1 < k\<close> have "0 < bytes div k" by (simp add: div_greater_zero_iff)
    with True \<open>0 < bytes \<and> 1 < k\<close> show ?thesis
      by (simp add: floor_log_floorlog compute_floorlog [of k bytes] compute_floorlog [of k "bytes div k"])
  next
    case False
    with \<open>0 < bytes \<and> 1 < k\<close> show ?thesis
      by (simp add: floor_log_floorlog compute_floorlog [of k bytes] floorlog_def [of k 0])
  qed
next
  case False
  then have "floor_log k bytes = 0" by (auto simp: floor_log_floorlog floorlog_def)
  with False show ?thesis by auto
qed

lemma floor_log_bounds:
  assumes "0 < bytes" "1 < k"
  shows "k ^ floor_log k bytes \<le> bytes" "bytes < k ^ Suc (floor_log k bytes)"
proof -
  have "0 < floorlog k bytes" using assms by (simp add: floorlog_def)
  then have "floorlog k bytes = Suc (floor_log k bytes)" by (simp add: floor_log_floorlog)
  with floorlog_bounds [OF assms] show "k ^ floor_log k bytes \<le> bytes" "bytes < k ^ Suc (floor_log k bytes)"
    by simp_all
qed

lemma floor_log_less_iff:
  assumes "0 < bytes" "1 < k"
  shows "floor_log k bytes < w \<longleftrightarrow> bytes < k ^ w"
proof -
  have "0 < floorlog k bytes" using assms by (simp add: floorlog_def)
  then have "floor_log k bytes < w \<longleftrightarrow> floorlog k bytes \<le> w"
    by (auto simp: floor_log_floorlog)
  then show ?thesis using assms by (simp add: floorlog_le_iff)
qed


lemma digit_char_is_digit: "d < 10 \<Longrightarrow> is_digit (digit_char d)"
  by (simp add: is_digit_def digit_char_def nth_Cons')

lemma digit_val_digit_char: "d < 10 \<Longrightarrow> digit_val (digit_char d) = d"
proof -
  assume "d < 10"
  then have "d \<in> {0,1,2,3,4,5,6,7,8,9}" by auto
  then show ?thesis by (auto simp: digit_val_def digit_char_def)
qed

lemma show_nat_digits: "list_all is_digit (show_nat n)"
proof (induction n rule: show_nat.induct)
  case (1 n)
  show ?case
  proof (cases "n < 10")
    case True
    then show ?thesis by (simp add: show_nat.simps [of n] digit_char_is_digit)
  next
    case False
    with 1 show ?thesis by (simp add: show_nat.simps [of n] digit_char_is_digit)
  qed
qed

lemma digits_val_snoc: "digits_val (cs @ [c]) = 10 * digits_val cs + digit_val c"
  by (simp add: digits_val_def)

lemma digits_val_show_nat: "digits_val (show_nat n) = n"
proof (induction n rule: show_nat.induct)
  case (1 n)
  show ?case
  proof (cases "n < 10")
    case True
    then show ?thesis
      by (simp add: show_nat.simps [of n] digits_val_def digit_val_digit_char)
  next
    case False
    with 1 show ?thesis
      by (simp add: show_nat.simps [of n] digits_val_snoc digit_val_digit_char)
  qed
qed

lemma show_nat_length1: "n < 10 \<Longrightarrow> length (show_nat n) = 1"
  by (simp add: show_nat.simps [of n])

lemma dot_not_digit: "\<not> is_digit CHR ''.''"
  by (simp add: is_digit_def)

lemma takeWhile_digits_dot:
  "list_all is_digit xs \<Longrightarrow> takeWhile is_digit (xs @ CHR ''.'' # ys) = xs"
  by (induction xs) (simp_all add: dot_not_digit)

lemma dropWhile_digits_dot:
  "list_all is_digit xs \<Longrightarrow> dropWhile is_digit (xs @ CHR ''.'' # ys) = CHR ''.'' # ys"
  by (induction xs) (simp_all add: dot_not_digit)

lemma takeWhile_all: "list_all P xs \<Longrightarrow> takeWhile P xs = xs"
  by (induction xs) simp_all

lemma parseFloat_decimal:
  "b < 10 \<Longrightarrow> parseFloat (show_nat a @ ''.'' @ show_nat b) = of_nat a + of_nat b / 10"
  by (simp add: parseFloat_def takeWhile_digits_dot dropWhile_digits_dot show_nat_digits
      takeWhile_all digits_val_show_nat show_nat_length1)

lemma parseFloat_toFixed_1:
  "parseFloat (toFixed_1 x) = of_nat (nat \<lfloor>x * 10 + 1 / 2\<rfloor>) / 10"
proof -
  define n where "n = nat \<lfloor>x * 10 + 1 / 2\<rfloor>"
  have "parseFloat (toFixed_1 x) = of_nat (n div 10) + of_nat (n mod 10) / 10"
    by (simp add: toFixed_1_def n_def [symmetric] Let_def parseFloat_decimal del: append.simps)
  also have "\<dots> = of_nat (10 * (n div 10) + n mod 10) / 10"
    by (simp only: of_nat_add of_nat_mult) (simp add: field_simps)
  also have "\<dots> = of_nat n / 10" by simp
  finally show ?thesis by (simp add: n_def)
qed

lemma Number_toString_tenths:
  "Number_toString (of_nat n / 10) =
     (if n mod 10 = 0 then show_nat (n div 10)
      else show_nat (n div 10) @ ''.'' @ show_nat (n mod 10))"
  by (simp add: Number_toString_def)

lemma round_tenths:
  assumes "0 < d"
  shows "nat \<lfloor>(of_nat b / of_nat d :: rat) * 10 + 1 / 2\<rfloor> = (20 * b + d) div (2 * d)"
proof -
  have "(of_nat b / of_nat d :: rat) * 10 + 1 / 2 = of_nat (20 * b + d) / of_nat (2 * d)"
    using assms by (simp add: field_simps)
  then show ?thesis by (simp only: floor_divide_of_nat_eq nat_int)
qed

lemma formatFileSize_tenths:
  assumes "0 < bytes"
  shows "formatFileSize bytes =
    (let i = floor_log 1024 bytes; n = (20 * bytes + 1024 ^ i) div (2 * 1024 ^ i)
     in (if n mod 10 = 0 then show_nat (n div 10)
         else show_nat (n div 10) @ ''.'' @ show_nat (n mod 10))
        @ '' '' @ template_string (array_get sizes i))"
proof -
  define i where "i = floor_log 1024 bytes"
  have r: "nat \<lfloor>(of_nat bytes / of_nat (1024 ^ i) :: rat) * 10 + 1 / 2\<rfloor>
         = (20 * bytes + 1024 ^ i) div (2 * 1024 ^ i)"
    by (rule round_tenths) simp
  show ?thesis using assms
    by (simp only: formatFileSize_def Let_def i_def [symmetric] parseFloat_toFixed_1
        Number_toString_tenths r) simp
qed

lemma floor_log_1536: "floor_log 1024 1536 = 1" by (simp add: floor_log_rec)
lemma floor_log_MB: "floor_log 1024 1048576 = 2" by (simp add: floor_log_rec)

lemma formatFileSize_1536: "formatFileSize 1536 = ''1.5 KB''"
  by (simp add: formatFileSize_tenths floor_log_1536 show_nat.simps digit_char_def
      template_string_def array_get_def sizes_def)
lemma formatFileSize_MB: "formatFileSize 1048576 = ''1 MB''"
  by (simp add: formatFileSize_tenths floor_log_MB show_nat.simps digit_char_def
      template_string_def array_get_def sizes_def)
lemma formatFileSize_0: "formatFileSize 0 = ''0 B''"
  by (simp add: formatFileSize_def)

text \<open>
  C2, amended: the formatter gives \<^verbatim>\<open>0 B\<close> for 0, \<^verbatim>\<open>1.5 KB\<close> for 1536 and \<^verbatim>\<open>1 MB\<close> (not
  \<^verbatim>\<open>1.0 MB\<close>) for 1048576. For a positive size below \<open>1024^4\<close> the unit is entry \<open>i\<close> of
  B, KB, MB, GB, where \<open>1024^i \<le> bytes < 1024^(i+1)\<close>; the number printed is the size divided
  by \<open>1024^i\<close> and rounded to the nearest tenth, a tie going up, in tenths \<open>n\<close>; it is printed
  with one decimal digit, except that a tenths digit 0 is dropped together with the point.
\<close>

theorem formatFileSize_values:
  "formatFileSize 0 = ''0 B''
   \<and> formatFileSize 1536 = ''1.5 KB''
   \<and> formatFileSize 1048576 = ''1 MB''
   \<and> (0 < bytes \<and> bytes < 1024 ^ 4 \<longrightarrow>
        (let i = floor_log 1024 bytes; n = (20 * bytes + 1024 ^ i) div (2 * 1024 ^ i)
         in i < 4 \<and> 1024 ^ i \<le> bytes \<and> bytes < 1024 ^ Suc i
            \<and> n * (2 * 1024 ^ i) \<le> 20 * bytes + 1024 ^ i
            \<and> 20 * bytes + 1024 ^ i < Suc n * (2 * 1024 ^ i)
            \<and> formatFileSize bytes =
                (if n mod 10 = 0 then show_nat (n div 10)
                 else show_nat (n div 10) @ ''.'' @ show_nat (n mod 10))
                @ '' '' @ sizes ! i))"
proof (intro conjI impI)
  show "formatFileSize 0 = ''0 B''" by (rule formatFileSize_0)
  show "formatFileSize 1536 = ''1.5 KB''" by (rule formatFileSize_1536)
  show "formatFileSize 1048576 = ''1 MB''" by (rule formatFileSize_MB)
next
  assume b: "0 < bytes \<and> bytes < 1024 ^ 4"
  define i where "i = floor_log 1024 bytes"
  define n where "n = (20 * bytes + 1024 ^ i) div (2 * 1024 ^ i)"
  have i4: "i < 4" using b floor_log_less_iff [of bytes 1024 4] by (simp add: i_def)
  have lo: "1024 ^ i \<le> bytes" and hi: "bytes < 1024 ^ Suc i"
    using b floor_log_bounds [of bytes 1024] by (simp_all add: i_def)
  have d: "(0::nat) < 2 * 1024 ^ i" by simp
  have n1: "n * (2 * 1024 ^ i) \<le> 20 * bytes + 1024 ^ i"
    unfolding n_def by (rule div_times_less_eq_dividend)
  have n2: "20 * bytes + 1024 ^ i < Suc n * (2 * 1024 ^ i)"
    unfolding n_def using dividend_less_div_times [OF d, of "20 * bytes + 1024 ^ i"] by simp
  have u: "template_string (array_get sizes i) = sizes ! i"
    using i4 by (simp add: template_string_def array_get_def sizes_def)
  have f: "formatFileSize bytes =
      (if n mod 10 = 0 then show_nat (n div 10)
       else show_nat (n div 10) @ ''.'' @ show_nat (n mod 10)) @ '' '' @ sizes ! i"
    using b by (simp only: formatFileSize_tenths Let_def i_def [symmetric] n_def [symmetric] u)
  show "let i = floor_log 1024 bytes; n = (20 * bytes + 1024 ^ i) div (2 * 1024 ^ i)
         in i < 4 \<and> 1024 ^ i \<le> bytes \<and> bytes < 1024 ^ Suc i
            \<and> n * (2 * 1024 ^ i) \<le> 20 * bytes + 1024 ^ i
            \<and> 20 * bytes + 1024 ^ i < Suc n * (2 * 1024 ^ i)
            \<and> formatFileSize bytes =
                (if n mod 10 = 0 then show_nat (n div 10)
                 else show_nat (n div 10) @ ''.'' @ show_nat (n mod 10))
                @ '' '' @ sizes ! i"
    unfolding Let_def i_def [symmetric] n_def [symmetric]
    using i4 lo hi n1 n2 f by blast
qed

theorem formatFileSize_values_witness:
  "(0::nat) < 1536 \<and> (1536::nat) < 1024 ^ 4
   \<and> floor_log 1024 1536 = 1
   \<and> (20 * 1536 + 1024 ^ 1) div (2 * 1024 ^ 1) = (15::nat)
   \<and> formatFileSize 1536 = ''1.5 KB''"
  using formatFileSize_values [of 1536]
  by (simp add: floor_log_1536)

theorem formatFileSize_MB_counterexample:
  "formatFileSize 1048576 \<noteq> ''1.0 MB''"
  by (simp add: formatFileSize_MB)

lemma fl_nonneg: "0 \<le> x \<Longrightarrow> 0 \<le> fl x"
  using fl_mono [of 0 x] by (simp add: fl_0)

lemma fl_minus: "fl (- x) = - fl x"
  by (simp add: fl_def Let_def)

lemma fl_nonpos: "x \<le> 0 \<Longrightarrow> fl x \<le> 0"
  using fl_nonneg [of "- x"] by (simp add: fl_minus)

lemma unit_index_lower:
  assumes pos: "0 < Math_log k"
    and at: "of_int i \<le> fl (Math_log m / Math_log k)"
    and m0: "0 \<le> Math_log m"
    and le: "Math_log m \<le> Math_log n"
  shows "i \<le> unit_index Math_log k n"
proof -
  have "0 \<le> Math_log m / Math_log k" using m0 pos by simp
  moreover have "Math_log m / Math_log k \<le> Math_log n / Math_log k"
    using le pos by (simp add: divide_right_mono)
  ultimately have "fl (Math_log m / Math_log k) \<le> fl (Math_log n / Math_log k)"
    by (rule fl_mono)
  with at have "of_int i \<le> fl (Math_log n / Math_log k)" by simp
  then show ?thesis unfolding unit_index_def by (simp only: le_floor_iff)
qed

lemma unit_index_upper:
  assumes pos: "0 < Math_log k"
    and below: "fl (Math_log m / Math_log k) < of_int i"
    and n0: "0 \<le> Math_log n"
    and le: "Math_log n \<le> Math_log m"
  shows "0 \<le> unit_index Math_log k n" and "unit_index Math_log k n < i"
proof -
  have q0: "0 \<le> Math_log n / Math_log k" using n0 pos by simp
  then have "0 \<le> fl (Math_log n / Math_log k)" by (rule fl_nonneg)
  then show "0 \<le> unit_index Math_log k n" by (simp add: unit_index_def)
  have "Math_log n / Math_log k \<le> Math_log m / Math_log k"
    using le pos by (simp add: divide_right_mono)
  with q0 have "fl (Math_log n / Math_log k) \<le> fl (Math_log m / Math_log k)"
    by (rule fl_mono)
  with below have "fl (Math_log n / Math_log k) < of_int i" by simp
  then show "unit_index Math_log k n < i"
    unfolding unit_index_def by (simp only: floor_less_iff)
qed

lemma quotient_nonneg:
  assumes pos: "0 < Math_log k"
    and at: "of_int i \<le> fl (Math_log m / Math_log k)"
    and i: "0 < i"
  shows "0 \<le> (Math_log m :: rat)"
proof (rule ccontr)
  assume "\<not> 0 \<le> Math_log m"
  then have "Math_log m / Math_log k \<le> 0" using pos by (simp add: divide_le_0_iff)
  then have "fl (Math_log m / Math_log k) \<le> 0" by (rule fl_nonpos)
  with at have "(of_int i :: rat) \<le> 0" by simp
  with i show False by simp
qed

text \<open>
  Below \<open>1024^4\<close> the index of the doubles is the index of the exact logarithms, as soon as
  the logarithm of the implementation behaves at the powers of 1024 as the exact one: between
  one power and the next its values lie between the values at the two ends, its value at 1 is
  not negative, and the quotient rounds to at least \<open>i\<close> at \<open>1024^i\<close> and to less than
  \<open>i + 1\<close> at \<open>1024^(i+1) - 1\<close>.
\<close>

lemma unit_index_floor_log:
  assumes band: "\<And>i n. i < 4 \<Longrightarrow> 1024 ^ i \<le> n \<Longrightarrow> n < 1024 ^ Suc i \<Longrightarrow>
        Math_log (1024 ^ i) \<le> Math_log n \<and> Math_log n \<le> Math_log (1024 ^ Suc i - 1)"
    and one: "0 \<le> Math_log 1"
    and pos: "0 < Math_log 1024"
    and at: "\<And>i. i < 4 \<Longrightarrow> of_nat i \<le> fl (Math_log (1024 ^ i) / Math_log 1024)"
    and below: "\<And>i. i < 4 \<Longrightarrow>
        fl (Math_log (1024 ^ Suc i - 1) / Math_log 1024) < of_nat (Suc i)"
    and b: "0 < bytes" "bytes < 1024 ^ 4"
  shows "unit_index Math_log 1024 bytes = int (floor_log 1024 bytes)"
    and "formatFileSize_with Math_log bytes = formatFileSize bytes"
proof -
  define i where "i = floor_log 1024 bytes"
  have i4: "i < 4" using b floor_log_less_iff [of bytes 1024 4] by (simp add: i_def)
  have lo: "1024 ^ i \<le> bytes" and hi: "bytes < 1024 ^ Suc i"
    using b floor_log_bounds [of bytes 1024] by (simp_all add: i_def)
  note bd = band [OF i4 lo hi]
  have at': "of_int (int i) \<le> fl (Math_log (1024 ^ i) / Math_log 1024)"
    using at [OF i4] by simp
  have below': "fl (Math_log (1024 ^ Suc i - 1) / Math_log 1024) < of_int (int (Suc i))"
    using below [OF i4] by simp
  have m0: "0 \<le> Math_log (1024 ^ i)"
  proof (cases "i = 0")
    case True
    with one show ?thesis by simp
  next
    case False
    then have "0 < int i" by simp
    with pos at' show ?thesis by (rule quotient_nonneg)
  qed
  have n0: "0 \<le> Math_log bytes" using m0 bd by linarith
  have ge: "int i \<le> unit_index Math_log 1024 bytes"
    using pos at' m0 conjunct1 [OF bd] by (rule unit_index_lower)
  have "unit_index Math_log 1024 bytes < int (Suc i)"
    using pos below' n0 conjunct2 [OF bd] by (rule unit_index_upper(2))
  with ge show eq: "unit_index Math_log 1024 bytes = int (floor_log 1024 bytes)"
    by (simp add: i_def)
  have "array_get_int sizes (int (floor_log 1024 bytes)) = array_get sizes (floor_log 1024 bytes)"
    by (simp add: array_get_int_def array_get_def)
  then show "formatFileSize_with Math_log bytes = formatFileSize bytes"
    using b(1) by (simp add: formatFileSize_with_def formatFileSize_def Let_def eq)
qed


lemma ln_table_values:
  "ln_table 1 = 0" "ln_table (Suc 0) = 0"
  "ln_table 1023 = 7803043411358229 / 2 ^ 50"
  "ln_table 1024 = 7804143460206699 / 2 ^ 50"
  "ln_table 1536 = 7804143460206699 / 2 ^ 50"
  "ln_table 1048575 = 7804142923335531 / 2 ^ 49"
  "ln_table 1048576 = 7804143460206699 / 2 ^ 49"
  "ln_table 1073741823 = 365819224680805 / 2 ^ 44"
  "ln_table 1073741824 = 365819224697189 / 2 ^ 44"
  "ln_table 1099511627775 = 7804143460206443 / 2 ^ 48"
  "ln_table 1099511627776 = 7804143460206699 / 2 ^ 48"
  by (simp_all add: ln_table_def)



lemma fl_small_values: "fl 1 = 1" "fl 2 = 2" "fl 3 = 3" "fl 4 = 4"
  using fl_of_small_nat [of 1] fl_of_small_nat [of 2] fl_of_small_nat [of 3]
    fl_of_small_nat [of 4] by simp_all

lemma ln_table_quotients:
  "fl (ln_table 1024 / ln_table 1024) = 1"
  "fl (ln_table 1536 / ln_table 1024) = 1"
  "fl (ln_table 1048576 / ln_table 1024) = 2"
  "fl (ln_table 1099511627776 / ln_table 1024) = 4"
  by (simp_all add: ln_table_values fl_small_values)

lemma ln_table_quotient_3: "fl (ln_table 1073741824 / ln_table 1024) = 3"
proof -
  have q: "ln_table 1073741824 / ln_table 1024
      = (23412430380620096 / 7804143460206699 :: rat)"
    by (simp add: ln_table_values)
  have r: "round_even (of_nat (23412430380620096 * 2 ^ 51) / of_nat 7804143460206699)
      = 6755399441055744"
    by (subst round_even_div) simp_all
  have "(23412430380620096 / 7804143460206699 :: rat) / 2 powi (1 - 52)
      = of_nat (23412430380620096 * 2 ^ 51) / of_nat 7804143460206699"
    by (simp add: power_int_minus_divide)
  moreover have "fl (23412430380620096 / 7804143460206699)
      = of_int (round_even ((23412430380620096 / 7804143460206699) / 2 powi (1 - 52)))
        * 2 powi (1 - 52)"
    by (rule fl_eval) simp_all
  ultimately have "fl (23412430380620096 / 7804143460206699)
      = of_int 6755399441055744 * 2 powi (1 - 52)"
    by (simp only: r)
  then have "fl (23412430380620096 / 7804143460206699) = 3"
    by (simp add: power_int_minus_divide)
  then show ?thesis by (simp only: q)
qed

lemma ln_table_below:
  "fl (ln_table 1023 / ln_table 1024) < 1"
  "fl (ln_table 1048575 / ln_table 1024) < 2"
  "fl (ln_table 1073741823 / ln_table 1024) < 3"
  "fl (ln_table 1099511627775 / ln_table 1024) < 4"
proof -
  have "fl (7803043411358229 / 7804143460206699) < 1"
    using fl_upper [of "7803043411358229 / 7804143460206699"] by simp
  then show "fl (ln_table 1023 / ln_table 1024) < 1" by (simp add: ln_table_values)
  have "fl (15608285846671062 / 7804143460206699) < 2"
    using fl_upper [of "15608285846671062 / 7804143460206699"] by simp
  then show "fl (ln_table 1048575 / ln_table 1024) < 2" by (simp add: ln_table_values)
  have "fl (23412430379571520 / 7804143460206699) < 3"
    using fl_upper [of "23412430379571520 / 7804143460206699"] by simp
  then show "fl (ln_table 1073741823 / ln_table 1024) < 3" by (simp add: ln_table_values)
  have "fl (31216573840825772 / 7804143460206699) < 4"
    using fl_upper [of "31216573840825772 / 7804143460206699"] by simp
  then show "fl (ln_table 1099511627775 / ln_table 1024) < 4" by (simp add: ln_table_values)
qed

text \<open>
  With the doubles nearest to the natural logarithms, the two models of the formatter agree
  below \<open>1024^4\<close>.
\<close>

lemma formatFileSize_with_ln_table:
  assumes "0 < bytes" and "bytes < 1024 ^ 4"
  shows "formatFileSize_with ln_table bytes = formatFileSize bytes"
proof (rule unit_index_floor_log(2) [OF _ _ _ _ _ assms])
  fix i n :: nat
  assume "i < 4" and "1024 ^ i \<le> n" and "n < 1024 ^ Suc i"
  then consider "i = 0" "1 \<le> n" "n < 1024" | "i = 1" "1024 \<le> n" "n < 1048576"
    | "i = 2" "1048576 \<le> n" "n < 1073741824"
    | "i = 3" "1073741824 \<le> n" "n < 1099511627776"
    by (cases "i = 0"; cases "i = 1"; cases "i = 2"; cases "i = 3") auto
  then show "ln_table (1024 ^ i) \<le> ln_table n \<and> ln_table n \<le> ln_table (1024 ^ Suc i - 1)"
    by cases (simp_all add: ln_table_def)
next
  show "0 \<le> ln_table 1" by (simp add: ln_table_values)
  show "0 < ln_table 1024" by (simp add: ln_table_values)
next
  fix i :: nat
  assume "i < 4"
  then consider "i = 0" | "i = 1" | "i = 2" | "i = 3" by linarith
  then show "of_nat i \<le> fl (ln_table (1024 ^ i) / ln_table 1024)"
    using ln_table_quotients ln_table_quotient_3
    by cases (simp_all add: ln_table_values fl_0)
next
  fix i :: nat
  assume "i < 4"
  then consider "i = 0" | "i = 1" | "i = 2" | "i = 3" by linarith
  then show "fl (ln_table (1024 ^ Suc i - 1) / ln_table 1024) < of_nat (Suc i)"
    using ln_table_below by cases simp_all
qed


section \<open>Progress callbacks\<close>


lemma onUploadProgress_nth:
  assumes "j < length (files s)"
  shows "files (onUploadProgress x ev s) ! j =
     (if fid (files s ! j) = fid x
      then (files s ! j)\<lparr>progress := progress_of ev\<rparr>
      else files s ! j)"
  using assms by (simp add: onUploadProgress_def Let_def)

lemma onUploadProgress_length: "length (files (onUploadProgress x ev s)) = length (files s)"
  by (simp add: onUploadProgress_def Let_def)

lemma onUploadProgress_fields:
  "map fid (files (onUploadProgress x ev s)) = map fid (files s)"
  "map file (files (onUploadProgress x ev s)) = map file (files s)"
  "map uploaded (files (onUploadProgress x ev s)) = map uploaded (files s)"
  by (simp_all add: onUploadProgress_def Let_def comp_def if_distrib cong: if_cong)

lemma onUploadProgress_rest:
  "uploading (onUploadProgress x ev s) = uploading s"
  "requests (onUploadProgress x ev s) = requests s"
  "batches (onUploadProgress x ev s) = batches s"
  "inputRef (onUploadProgress x ev s) = inputRef s"
  by (simp_all add: onUploadProgress_def Let_def)

text \<open>
  C1, amended: a progress callback made for entry \<open>x\<close> leaves every entry whose identifier
  differs from the identifier of \<open>x\<close> exactly as it was, and changes nothing but the
  progress field of the entries that share the identifier of \<open>x\<close>, as two files of the same
  name do: identifiers, file handles and completion flags of all entries, the number of
  entries and the rest of the state stay as they were.
\<close>

theorem onUploadProgress_frame:
  assumes "j < length (files s)"
  shows "files (onUploadProgress x ev s) ! j =
       (if fid (files s ! j) = fid x
        then (files s ! j)\<lparr>progress := progress_of ev\<rparr> else files s ! j)
    \<and> (fid (files s ! j) \<noteq> fid x \<longrightarrow> files (onUploadProgress x ev s) ! j = files s ! j)
    \<and> length (files (onUploadProgress x ev s)) = length (files s)
    \<and> map fid (files (onUploadProgress x ev s)) = map fid (files s)
    \<and> map file (files (onUploadProgress x ev s)) = map file (files s)
    \<and> map uploaded (files (onUploadProgress x ev s)) = map uploaded (files s)
    \<and> uploading (onUploadProgress x ev s) = uploading s
    \<and> requests (onUploadProgress x ev s) = requests s
    \<and> batches (onUploadProgress x ev s) = batches s
    \<and> inputRef (onUploadProgress x ev s) = inputRef s"
proof -
  have n: "files (onUploadProgress x ev s) ! j =
       (if fid (files s ! j) = fid x
        then (files s ! j)\<lparr>progress := progress_of ev\<rparr> else files s ! j)"
    using assms by (rule onUploadProgress_nth)
  then have f: "fid (files s ! j) \<noteq> fid x \<longrightarrow> files (onUploadProgress x ev s) ! j = files s ! j"
    by simp
  from n f show ?thesis
    by (simp only: onUploadProgress_length onUploadProgress_fields onUploadProgress_rest)
qed

lemma two_same_name_files: "files two_same_name = [newFile file_a, newFile file_a2]"
  by (simp add: two_same_name_def handleFileSelect_def init_MultiFileUpload_def)

lemma Math_round_of_int: "Math_round (of_int k) = k"
proof -
  have "\<lfloor>(of_int k :: rat) + 1 / 2\<rfloor> = k" by linarith
  then show ?thesis by (simp add: Math_round_def)
qed

lemma half_loaded_round: "progress_of half_loaded = 50"
proof -
  have "fl (of_nat 768 * 100) = 76800" using fl_of_small_nat [of 76800] by simp
  moreover have "fl 50 = 50" using fl_of_small_nat [of 50] by simp
  moreover have "Math_round 50 = 50" using Math_round_of_int [of 50] by simp
  ultimately show ?thesis by (simp add: progress_of_def half_loaded_def total_or_1_def)
qed


theorem onUploadProgress_frame_counterexample:
  "files two_same_name ! 1 \<noteq> files two_same_name ! 0
   \<and> progress (files two_same_name ! 1) = 0
   \<and> progress (files (onUploadProgress (files two_same_name ! 0) half_loaded two_same_name) ! 1)
       = 50"
  by (simp add: two_same_name_files onUploadProgress_nth half_loaded_round)
     (simp add: newFile_def file_a_def file_a2_def)

theorem onUploadProgress_frame_witness:
  "(1::nat) < length (files two_same_name)
   \<and> files (onUploadProgress (newFile file_a) half_loaded two_same_name) ! 1
       = (newFile file_a2)\<lparr>progress := 50\<rparr>
   \<and> files (onUploadProgress (newFile file_b) half_loaded two_same_name) ! 1
       = newFile file_a2
   \<and> map file (files (onUploadProgress (newFile file_a) half_loaded two_same_name))
       = [file_a, file_a2]"
  using onUploadProgress_frame [of 1 two_same_name "newFile file_a" half_loaded]
    onUploadProgress_frame [of 1 two_same_name "newFile file_b" half_loaded]
  by (simp add: two_same_name_files half_loaded_round)
     (simp add: newFile_def file_a_def file_a2_def file_b_def)

text \<open>
  On two events the exact quotient and the double quotient round apart: the value stored is
  the one of the doubles.
\<close>

lemma nearly_done_round: "progress_of nearly_done = 100"
proof -
  have p: "fl 7001690045691000 = 7001690045691000"
    using fl_of_small_nat [of 7001690045691000] by simp
  have r: "round_even (of_nat (7001690045691000 * 2 ^ 46) / of_nat 70368744177799)
      = 7001690045677568"
    by (subst round_even_div) simp_all
  have "(7001690045691000 / 70368744177799 :: rat) / 2 powi (6 - 52)
      = of_nat (7001690045691000 * 2 ^ 46) / of_nat 70368744177799"
    by (simp add: power_int_minus_divide)
  moreover have "fl (7001690045691000 / 70368744177799)
      = of_int (round_even ((7001690045691000 / 70368744177799) / 2 powi (6 - 52)))
        * 2 powi (6 - 52)"
    by (rule fl_eval) simp_all
  ultimately have "fl (7001690045691000 / 70368744177799)
      = of_int 7001690045677568 * 2 powi (6 - 52)"
    by (simp only: r)
  then have q: "fl (7001690045691000 / 70368744177799) = 199 / 2"
    by (simp add: power_int_minus_divide)
  have m: "Math_round (199 / 2) = 100" by (simp add: Math_round_def)
  show ?thesis
    by (simp add: progress_of_def nearly_done_def total_or_1_def p) (simp only: q m)
qed

lemma huge_no_total_round: "progress_of huge_no_total = 900719925474099072"
proof -
  have r: "round_even (of_nat 900719925474099100 / of_nat (2 ^ 7)) = 7036874417766399"
    by (subst round_even_div) simp_all
  have "(900719925474099100 :: rat) / 2 powi (59 - 52)
      = of_nat 900719925474099100 / of_nat (2 ^ 7)"
    by simp
  moreover have "fl 900719925474099100
      = of_int (round_even (900719925474099100 / 2 powi (59 - 52))) * 2 powi (59 - 52)"
    by (rule fl_eval) simp_all
  ultimately have "fl 900719925474099100 = of_int 7036874417766399 * 2 powi (59 - 52)"
    by (simp only: r)
  then have p: "fl 900719925474099100 = 900719925474099072" by simp
  have r2: "round_even (of_nat 900719925474099072 / of_nat (2 ^ 7)) = 7036874417766399"
    by (subst round_even_div) simp_all
  have "(900719925474099072 :: rat) / 2 powi (59 - 52)
      = of_nat 900719925474099072 / of_nat (2 ^ 7)"
    by simp
  moreover have "fl 900719925474099072
      = of_int (round_even (900719925474099072 / 2 powi (59 - 52))) * 2 powi (59 - 52)"
    by (rule fl_eval) simp_all
  ultimately have "fl 900719925474099072 = of_int 7036874417766399 * 2 powi (59 - 52)"
    by (simp only: r2)
  then have q: "fl 900719925474099072 = 900719925474099072" by simp
  have m: "Math_round 900719925474099072 = 900719925474099072"
    using Math_round_of_int [of 900719925474099072] by simp
  show ?thesis
    by (simp add: progress_of_def huge_no_total_def total_or_1_def p q m)
qed




section \<open>Removal while uploading\<close>

text \<open>
  C3, amended: while the uploading flag is set no removal button is rendered, so a click on
  the removal control of any identifier, present or not, leaves the state as it is.
  (\<^verbatim>\<open>removeFile\<close> itself has no guard.)
\<close>

theorem click_remove_while_uploading:
  assumes "uploading s"
  shows "\<not> remove_button_rendered i s \<and> click_remove i s = s"
  using assms by (simp add: click_remove_def remove_button_rendered_def)

lemma uploading_a_state:
  "uploading_a = \<lparr>files = [newFile file_a], uploading = True, inputRef = Some [],
     requests = [\<lparr>req_entry = newFile file_a, req_state = Pending, req_batch = 0\<rparr>],
     batches = Suc 0\<rparr>"
  by (simp add: uploading_a_def handleUpload_def handleFileSelect_def init_MultiFileUpload_def)

theorem click_remove_while_uploading_witness:
  "uploading uploading_a
   \<and> files uploading_a = [newFile file_a]
   \<and> click_remove ''a.txt'' uploading_a = uploading_a
   \<and> click_remove ''b.png'' uploading_a = uploading_a"
  using click_remove_while_uploading [of uploading_a "''a.txt''"]
    click_remove_while_uploading [of uploading_a "''b.png''"]
  by (simp add: uploading_a_state)

theorem removeFile_while_uploading_counterexample:
  "uploading uploading_a
   \<and> files uploading_a = [newFile file_a]
   \<and> files (removeFile ''a.txt'' uploading_a) = []"
  by (simp add: uploading_a_state removeFile_def newFile_def file_a_def)

section \<open>The status of the single uploader\<close>

lemma fu_step_one_request:
  assumes "one_request s"
  shows "one_request (fu_step e s)"
  using assms
  by (cases e)
     (auto simp: one_request_def handleFileChange_def click_upload_def upload_button_rendered_def
        handleFileUpload_def request_settled_def split: option.splits if_splits outcome.splits)

lemma fu_step_status_change:
  assumes "one_request s"
  shows "status_change (status s) (status (fu_step e s))"
  using assms
  by (cases e)
     (auto simp: one_request_def status_change_def handleFileChange_def click_upload_def
        upload_button_rendered_def handleFileUpload_def request_settled_def
        split: option.splits if_splits outcome.splits)

lemma fu_trace_hd: "\<exists>rest. fu_trace evs s = s # rest"
  by (cases evs) simp_all

lemma fu_trace_status_changes:
  "one_request s \<Longrightarrow> successively status_change (map status (fu_trace evs s))"
proof (induction evs arbitrary: s)
  case Nil
  then show ?case by simp
next
  case (Cons e es)
  obtain rest where r: "fu_trace es (fu_step e s) = fu_step e s # rest"
    using fu_trace_hd by blast
  have "successively status_change (map status (fu_trace es (fu_step e s)))"
    using Cons.IH [OF fu_step_one_request [OF Cons.prems]] .
  then show ?case
    using fu_step_status_change [OF Cons.prems, of e] by (simp add: r)
qed

lemma status_change_Idle: "status_change a Idle \<Longrightarrow> a = Idle"
  by (auto simp: status_change_def)

lemma fu_trace_never_Idle:
  "one_request s \<Longrightarrow> status s \<noteq> Idle \<Longrightarrow> Idle \<notin> set (map status (fu_trace evs s))"
proof (induction evs arbitrary: s)
  case Nil
  then show ?case by simp
next
  case (Cons e es)
  have "status (fu_step e s) \<noteq> Idle"
    using fu_step_status_change [OF Cons.prems(1), of e] Cons.prems(2)
    by (auto dest: status_change_Idle)
  then have "Idle \<notin> set (map status (fu_trace es (fu_step e s)))"
    using Cons.IH [OF fu_step_one_request [OF Cons.prems(1)]] by blast
  then show ?case using Cons.prems(2) by simp
qed

lemma selected_a_state:
  "selected_a = \<lparr>file_sel = Some file_a, status = Idle, in_flight = 0\<rparr>"
  by (simp add: selected_a_def handleFileChange_def init_FileUploader_def)

text \<open>
  C6, amended: started with a file selected, status \<open>Idle\<close> and no request in flight, a
  run of the upload passes through exactly \<open>Idle\<close>, \<open>Uploading\<close>, \<open>Success\<close> when the request
  resolves and \<open>Idle\<close>, \<open>Uploading\<close>, \<open>Error\<close> when it rejects. Whatever events follow, the
  status changes only into \<open>Uploading\<close> from \<open>Idle\<close>, \<open>Success\<close> or \<open>Error\<close>, and out of
  \<open>Uploading\<close> into \<open>Success\<close> or \<open>Error\<close>; once the upload is initiated the status is never
  \<open>Idle\<close> again.
\<close>

theorem handleFileUpload_status_sequence:
  assumes "file_sel s = Some f" and "status s = Idle" and "in_flight s = 0"
  shows "map status (fu_trace [ClickUpload, RequestSettled Resolve] s) = [Idle, Uploading, Success]
    \<and> map status (fu_trace [ClickUpload, RequestSettled Reject] s) = [Idle, Uploading, Error]
    \<and> successively status_change (map status (fu_trace evs s))
    \<and> Idle \<notin> set (map status (fu_trace evs (fu_step ClickUpload s)))"
proof -
  have one: "one_request s" using assms by (simp add: one_request_def)
  have up: "click_upload s = s\<lparr>status := Uploading, in_flight := Suc 0\<rparr>"
    using assms by (simp add: click_upload_def upload_button_rendered_def handleFileUpload_def)
  have a: "map status (fu_trace [ClickUpload, RequestSettled Resolve] s)
        = [Idle, Uploading, Success]"
    using assms by (simp add: up request_settled_def)
  have b: "map status (fu_trace [ClickUpload, RequestSettled Reject] s)
        = [Idle, Uploading, Error]"
    using assms by (simp add: up request_settled_def)
  have c: "successively status_change (map status (fu_trace evs s))"
    using one by (rule fu_trace_status_changes)
  have "one_request (fu_step ClickUpload s)" using one by (rule fu_step_one_request)
  moreover have "status (fu_step ClickUpload s) \<noteq> Idle" by (simp add: up)
  ultimately have d: "Idle \<notin> set (map status (fu_trace evs (fu_step ClickUpload s)))"
    by (rule fu_trace_never_Idle)
  from a b c d show ?thesis by blast
qed

theorem handleFileUpload_status_sequence_witness:
  "file_sel selected_a = Some file_a \<and> status selected_a = Idle \<and> in_flight selected_a = 0
   \<and> map status (fu_trace [ClickUpload, RequestSettled Resolve] selected_a)
       = [Idle, Uploading, Success]
   \<and> map status (fu_trace [ClickUpload, RequestSettled Reject] selected_a)
       = [Idle, Uploading, Error]
   \<and> map status (fu_trace [RequestSettled Reject, ClickUpload, RequestSettled Resolve]
         (fu_step ClickUpload selected_a)) = [Uploading, Error, Uploading, Success]
   \<and> Idle \<notin> set [Uploading, Error, Uploading, Success]"
  using handleFileUpload_status_sequence [of selected_a file_a
      "[RequestSettled Reject, ClickUpload, RequestSettled Resolve]"]
  by (simp add: selected_a_state click_upload_def upload_button_rendered_def
      handleFileUpload_def request_settled_def status_change_def)

theorem handleFileUpload_retry_counterexample:
  "map status (fu_trace [ClickUpload, RequestSettled Reject, ClickUpload, RequestSettled Resolve]
      selected_a) = [Idle, Uploading, Error, Uploading, Success]"
  by (simp add: selected_a_state click_upload_def upload_button_rendered_def
      handleFileUpload_def request_settled_def)

section \<open>The bulk upload waits for every request\<close>

lemma uploadPromise_not_Rejected:
  "uploadPromise p \<noteq> Rejected" "Rejected \<noteq> uploadPromise p"
  by (cases p; simp)+

lemma uploadPromise_Fulfilled: "(uploadPromise p = Fulfilled) = (p \<noteq> Pending)"
  by (cases p) simp_all

lemma Promise_all_uploadPromise:
  "(Promise_all (map (\<lambda>q. uploadPromise (req_state q)) rs) = Fulfilled) = all_settled rs"
  by (auto simp: Promise_all_def all_settled_def list_all_iff uploadPromise_not_Rejected
      uploadPromise_Fulfilled)

lemma settled_state_not_Pending: "settled_state out \<noteq> Pending"
  by (cases out) simp_all

lemma settle_ignored:
  "\<not> (k < length (requests s) \<and> req_state (requests s ! k) = Pending) \<Longrightarrow> settle k out s = s"
  by (auto simp: settle_def)

lemma onUploaded_rest:
  "requests (onUploaded x s) = requests s"
  "uploading (onUploaded x s) = uploading s"
  "batches (onUploaded x s) = batches s"
  by (simp_all add: onUploaded_def)

lemma settle_fields:
  assumes "k < length (requests s)" and "req_state (requests s ! k) = Pending"
  shows "requests (settle k out s)
           = (requests s)[k := (requests s ! k)\<lparr>req_state := settled_state out\<rparr>]"
    and "batches (settle k out s) = batches s"
    and "uploading (settle k out s)
           = (uploading s \<and> \<not> all_settled (batch_of (req_batch (requests s ! k)) (settle k out s)))"
proof -
  show r: "requests (settle k out s)
           = (requests s)[k := (requests s ! k)\<lparr>req_state := settled_state out\<rparr>]"
    using assms by (cases out) (simp_all add: settle_def Let_def onUploaded_rest)
  show "batches (settle k out s) = batches s"
    using assms by (cases out) (simp_all add: settle_def Let_def onUploaded_rest)
  show "uploading (settle k out s)
           = (uploading s \<and> \<not> all_settled (batch_of (req_batch (requests s ! k)) (settle k out s)))"
    unfolding batch_of_def r
    using assms
    by (cases out)
       (simp_all add: settle_def Let_def onUploaded_rest Promise_all_uploadPromise)
qed

lemma consistent_init: "consistent init_MultiFileUpload"
  by (simp add: consistent_def init_MultiFileUpload_def all_settled_def)

lemma consistent_handleUpload:
  assumes "consistent s"
  shows "consistent (handleUpload s)"
proof (cases "length (files s) = 0 \<or> uploading s")
  case True
  then show ?thesis using assms by (simp add: handleUpload_def)
next
  case False
  then have ne: "files s \<noteq> []" and nu: "\<not> uploading s" by auto
  from assms nu have old: "all_settled (requests s)" by (simp add: consistent_def)
  from ne obtain f fs where fs: "files s = f # fs" by (cases "files s") auto
  show ?thesis
    using assms False old
    by (auto simp: consistent_def handleUpload_def all_settled_def list_all_iff fs)
qed

lemma consistent_settle:
  assumes c: "consistent s"
  shows "consistent (settle k out s)"
proof (cases "k < length (requests s) \<and> req_state (requests s ! k) = Pending")
  case False
  then show ?thesis using c by (simp add: settle_ignored)
next
  case True
  define r where "r = requests s ! k"
  define r' where "r' = r\<lparr>req_state := settled_state out\<rparr>"
  define xs' where "xs' = (requests s)[k := r']"
  from True have k: "k < length (requests s)" and pend: "req_state r = Pending"
    by (simp_all add: r_def)
  have rin: "r \<in> set (requests s)" using k by (simp add: r_def)
  have req: "requests (settle k out s) = xs'"
    using settle_fields(1) [of k s out] True by (simp add: xs'_def r'_def r_def)
  have bat: "batches (settle k out s) = batches s"
    using settle_fields(2) [of k s out] True by simp
  have upl: "uploading (settle k out s)
      = (uploading s \<and> \<not> all_settled (filter (\<lambda>q. req_batch q = req_batch r) xs'))"
    using settle_fields(3) [of k s out] True by (simp add: batch_of_def req r_def)
  from c have up: "uploading s = (\<not> all_settled (requests s))"
    and each: "\<And>q. q \<in> set (requests s) \<Longrightarrow>
        req_batch q < batches s \<and> (req_state q = Pending \<longrightarrow> Suc (req_batch q) = batches s)"
    by (simp_all add: consistent_def list_all_iff)
  have us: "uploading s" using up rin pend by (auto simp: all_settled_def list_all_iff)
  have rb: "Suc (req_batch r) = batches s" using each [OF rin] pend by simp
  have sub: "set xs' \<subseteq> insert r' (set (requests s))"
    unfolding xs'_def by (rule set_update_subset_insert)
  have r'np: "req_state r' \<noteq> Pending" by (simp add: r'_def settled_state_not_Pending)
  have r'b: "req_batch r' = req_batch r" by (simp add: r'_def)
  have each': "\<And>q. q \<in> set xs' \<Longrightarrow>
        req_batch q < batches s \<and> (req_state q = Pending \<longrightarrow> Suc (req_batch q) = batches s)"
  proof -
    fix q assume "q \<in> set xs'"
    with sub have "q = r' \<or> q \<in> set (requests s)" by auto
    then show "req_batch q < batches s \<and> (req_state q = Pending \<longrightarrow> Suc (req_batch q) = batches s)"
      using each r'np r'b rb by auto
  qed
  have all_iff: "all_settled (filter (\<lambda>q. req_batch q = req_batch r) xs') = all_settled xs'"
  proof
    assume a: "all_settled (filter (\<lambda>q. req_batch q = req_batch r) xs')"
    show "all_settled xs'"
      unfolding all_settled_def list_all_iff
    proof
      fix q assume q: "q \<in> set xs'"
      show "req_state q \<noteq> Pending"
      proof
        assume p: "req_state q = Pending"
        with each' [OF q] rb have "req_batch q = req_batch r" by simp
        with q a have "req_state q \<noteq> Pending" by (simp add: all_settled_def list_all_iff)
        with p show False by simp
      qed
    qed
  next
    assume "all_settled xs'"
    then show "all_settled (filter (\<lambda>q. req_batch q = req_batch r) xs')"
      by (simp add: all_settled_def list_all_iff)
  qed
  show ?thesis
    unfolding consistent_def req bat upl all_iff
    using us each' by (simp add: list_all_iff)
qed

lemma consistent_step:
  assumes "consistent s"
  shows "consistent (step e s)"
proof (cases e)
  case (FileSelect fs)
  then show ?thesis using assms
    by (simp add: consistent_def handleFileSelect_def split: option.splits)
next
  case Upload
  then show ?thesis using assms by (simp add: consistent_handleUpload)
next
  case (RemoveFile i)
  then show ?thesis using assms by (simp add: consistent_def removeFile_def)
next
  case Clear
  then show ?thesis using assms by (simp add: consistent_def handleClear_def)
next
  case (UploadProgress k ev)
  then show ?thesis using assms
    by (simp add: consistent_def report_progress_def onUploadProgress_rest)
next
  case (Settle k out)
  then show ?thesis using assms by (simp add: consistent_settle)
qed

lemma run_Cons: "run (e # evs) s = run evs (step e s)"
  by (simp add: run_def)

lemma run_Nil: "run [] s = s"
  by (simp add: run_def)

lemma consistent_run: "consistent s \<Longrightarrow> consistent (run evs s)"
  by (induction evs arbitrary: s) (simp_all add: run_Nil run_Cons consistent_step)


lemma batch_entries_update:
  "map req_entry (filter (\<lambda>q. req_batch q = b) (xs[k := (xs ! k)\<lparr>req_state := st\<rparr>]))
     = map req_entry (filter (\<lambda>q. req_batch q = b) xs)"
proof (induction xs arbitrary: k)
  case Nil
  then show ?case by simp
next
  case (Cons x xs)
  then show ?case by (cases k) simp_all
qed

lemma batch_entries_step:
  assumes "b < batches s"
  shows "b < batches (step e s)
    \<and> map req_entry (batch_of b (step e s)) = map req_entry (batch_of b s)"
proof (cases e)
  case (FileSelect fs)
  then show ?thesis using assms
    by (simp add: batch_of_def handleFileSelect_def split: option.splits)
next
  case Upload
  then show ?thesis using assms by (auto simp: batch_of_def handleUpload_def)
next
  case (RemoveFile i)
  then show ?thesis using assms by (simp add: batch_of_def removeFile_def)
next
  case Clear
  then show ?thesis using assms by (simp add: batch_of_def handleClear_def)
next
  case (UploadProgress k ev)
  then show ?thesis using assms
    by (simp add: batch_of_def report_progress_def onUploadProgress_rest)
next
  case (Settle k out)
  show ?thesis
  proof (cases "k < length (requests s) \<and> req_state (requests s ! k) = Pending")
    case False
    then show ?thesis using assms Settle by (simp add: settle_ignored)
  next
    case True
    then show ?thesis using assms Settle
      by (simp add: batch_of_def settle_fields(1,2) batch_entries_update)
  qed
qed

lemma batch_entries_run:
  "b < batches s \<Longrightarrow> map req_entry (batch_of b (run evs s)) = map req_entry (batch_of b s)"
proof (induction evs arbitrary: s)
  case Nil
  then show ?case by (simp add: run_Nil)
next
  case (Cons e evs)
  from batch_entries_step [OF Cons.prems, of e]
  have "b < batches (step e s)"
    and "map req_entry (batch_of b (step e s)) = map req_entry (batch_of b s)"
    by simp_all
  with Cons.IH [of "step e s"] show ?case by (simp add: run_Cons)
qed

lemma batches_step: "e \<noteq> Upload \<Longrightarrow> batches (step e s) = batches s"
proof (cases e)
  case (Settle k out)
  then show ?thesis
    by (cases "k < length (requests s) \<and> req_state (requests s ! k) = Pending")
       (simp_all add: settle_ignored settle_fields(2))
qed (simp_all add: handleFileSelect_def removeFile_def handleClear_def report_progress_def
      onUploadProgress_rest split: option.splits)

lemma batches_run: "Upload \<notin> set evs \<Longrightarrow> batches (run evs s) = batches s"
  by (induction evs arbitrary: s) (auto simp: run_Nil run_Cons batches_step)

lemma handleUpload_starts:
  assumes "consistent s" and "files s \<noteq> []" and "\<not> uploading s"
  shows "uploading (handleUpload s)"
    and "batches (handleUpload s) = Suc (batches s)"
    and "map req_entry (batch_of (batches s) (handleUpload s)) = files s"
    and "all_settled (requests s)"
proof -
  show "uploading (handleUpload s)" "batches (handleUpload s) = Suc (batches s)"
    using assms by (simp_all add: handleUpload_def)
  from assms have "\<And>q. q \<in> set (requests s) \<Longrightarrow> req_batch q \<noteq> batches s"
    by (auto simp: consistent_def list_all_iff)
  then have "filter (\<lambda>q. req_batch q = batches s) (requests s) = []"
    by (simp add: filter_empty_conv)
  then show "map req_entry (batch_of (batches s) (handleUpload s)) = files s"
    using assms by (simp add: handleUpload_def batch_of_def comp_def)
  show "all_settled (requests s)" using assms by (simp add: consistent_def)
qed

lemma consistent_settled_batch:
  assumes "consistent s" and "batches s = Suc b"
  shows "uploading s = (\<not> all_settled (batch_of b s))"
proof -
  from assms have each: "\<And>q. q \<in> set (requests s) \<Longrightarrow> req_state q = Pending \<Longrightarrow> req_batch q = b"
    by (auto simp: consistent_def list_all_iff)
  have "all_settled (batch_of b s) = all_settled (requests s)"
    using each by (auto simp: all_settled_def batch_of_def list_all_iff)
  with assms show ?thesis by (simp add: consistent_def)
qed

text \<open>
  C5: let \<^verbatim>\<open>handleUpload\<close> start a batch in a state the component can reach, with a non-empty
  collection and the flag unset. The flag is then set, and the batch holds one request per
  entry. Whatever events follow, if the flag is unset then every request of the batch has
  settled, by resolution or by rejection; and as long as no later batch is started, the flag
  is unset as soon as all of them have settled.
\<close>

theorem uploading_until_all_settled:
  assumes "s = run evs0 init_MultiFileUpload" and "files s \<noteq> []" and "\<not> uploading s"
  shows "uploading (handleUpload s)
    \<and> map req_entry (batch_of (batches s) (run evs (handleUpload s))) = files s
    \<and> (\<not> uploading (run evs (handleUpload s))
         \<longrightarrow> all_settled (batch_of (batches s) (run evs (handleUpload s))))
    \<and> (Upload \<notin> set evs
         \<longrightarrow> uploading (run evs (handleUpload s))
              = (\<not> all_settled (batch_of (batches s) (run evs (handleUpload s)))))"
proof -
  let ?s0 = "handleUpload s" and ?s' = "run evs (handleUpload s)"
  have cs: "consistent s" using assms(1) consistent_init by (simp add: consistent_run)
  note st = handleUpload_starts [OF cs assms(2,3)]
  have c': "consistent ?s'" using cs by (simp add: consistent_handleUpload consistent_run)
  have ent: "map req_entry (batch_of (batches s) ?s') = files s"
    using batch_entries_run [of "batches s" ?s0 evs] st(2,3) by simp
  have safe: "\<not> uploading ?s' \<longrightarrow> all_settled (batch_of (batches s) ?s')"
  proof
    assume "\<not> uploading ?s'"
    with c' have "all_settled (requests ?s')" by (simp add: consistent_def)
    then show "all_settled (batch_of (batches s) ?s')"
      by (simp add: all_settled_def batch_of_def list_all_iff)
  qed
  have live: "Upload \<notin> set evs
      \<longrightarrow> uploading ?s' = (\<not> all_settled (batch_of (batches s) ?s'))"
  proof
    assume "Upload \<notin> set evs"
    then have "batches ?s' = Suc (batches s)" using st(2) by (simp add: batches_run)
    with c' show "uploading ?s' = (\<not> all_settled (batch_of (batches s) ?s'))"
      by (rule consistent_settled_batch)
  qed
  from st(1) ent safe live show ?thesis by blast
qed

lemma two_selected_state:
  "two_selected = \<lparr>files = [newFile file_a, newFile file_b], uploading = False,
      inputRef = Some [], requests = [], batches = 0\<rparr>"
  by (simp add: two_selected_def run_def handleFileSelect_def init_MultiFileUpload_def)

lemma two_selected_upload:
  "handleUpload two_selected = \<lparr>files = [newFile file_a, newFile file_b], uploading = True,
      inputRef = Some [],
      requests = [\<lparr>req_entry = newFile file_a, req_state = Pending, req_batch = 0\<rparr>,
                  \<lparr>req_entry = newFile file_b, req_state = Pending, req_batch = 0\<rparr>],
      batches = Suc 0\<rparr>"
  by (simp add: two_selected_state handleUpload_def)

lemma two_selected_reject_first:
  "uploading (run [Settle 1 Reject] (handleUpload two_selected))"
  by (simp add: two_selected_upload run_def settle_def Let_def Promise_all_uploadPromise
      all_settled_def)

lemma two_selected_all:
  "\<not> uploading (run [Settle 1 Reject, UploadProgress 0 half_loaded, Settle 0 Resolve]
       (handleUpload two_selected))"
  by (simp add: two_selected_upload run_def settle_def Let_def Promise_all_uploadPromise
      all_settled_def report_progress_def onUploadProgress_def onUploaded_def)

theorem uploading_until_all_settled_witness:
  "two_selected = run [FileSelect (Some [file_a, file_b])] init_MultiFileUpload
   \<and> files two_selected \<noteq> [] \<and> \<not> uploading two_selected
   \<and> uploading (handleUpload two_selected)
   \<and> uploading (run [Settle 1 Reject] (handleUpload two_selected))
   \<and> \<not> all_settled (batch_of 0 (run [Settle 1 Reject] (handleUpload two_selected)))
   \<and> \<not> uploading (run [Settle 1 Reject, UploadProgress 0 half_loaded, Settle 0 Resolve]
          (handleUpload two_selected))
   \<and> all_settled (batch_of 0
        (run [Settle 1 Reject, UploadProgress 0 half_loaded, Settle 0 Resolve]
          (handleUpload two_selected)))"
  using uploading_until_all_settled [of two_selected "[FileSelect (Some [file_a, file_b])]"
      "[Settle 1 Reject]"]
    uploading_until_all_settled [of two_selected "[FileSelect (Some [file_a, file_b])]"
      "[Settle 1 Reject, UploadProgress 0 half_loaded, Settle 0 Resolve]"]
    two_selected_reject_first two_selected_all
  by (simp add: two_selected_def [symmetric]) (simp add: two_selected_state)

end
